theory Spec2Isabelle
  imports Complex_Main "HOL-Library.AList"
begin

section \<open>Token masking (security.ts)\<close>

text \<open>
  A JavaScript string is modelled as an Isabelle \<open>string\<close>; one \<open>char\<close> stands for one
  code unit in the range 0..255. On that range the class \<open>\s\<close> of a regular expression and
  the characters removed by \<open>String.prototype.trim\<close> coincide: TAB, LF, VT, FF, CR, SPACE
  and NBSP.
\<close>

definition isSpace :: "char \<Rightarrow> bool" where
  "isSpace c \<longleftrightarrow> c \<in> {CHR 0x09, CHR 0x0A, CHR 0x0B, CHR 0x0C, CHR 0x0D, CHR 0x20, CHR 0xA0}"

text \<open>\<open>String.prototype.trim\<close>: whitespace is removed at both ends.\<close>

definition trim :: "string \<Rightarrow> string" where
  "trim s = rev (dropWhile isSpace (rev (dropWhile isSpace s)))"

text \<open>
  Case folding as the flag \<open>i\<close> of a regular expression needs it for the letters of
  \<open>Bearer\<close>: only the ASCII letters A..Z have a lower-case partner among these letters.
\<close>

definition lowerAscii :: "char \<Rightarrow> char" where
  "lowerAscii c =
     (if 65 \<le> (of_char c :: nat) \<and> (of_char c :: nat) \<le> 90
      then char_of (of_char c + (32 :: nat)) else c)"

text \<open>
  \<open>token.replace(/^Bearer\s+/i, '')\<close>: when the string starts with the six letters of
  \<open>Bearer\<close> in any case, followed by at least one whitespace character, the letters and the
  whole run of whitespace are removed; otherwise the string is returned as it is.
\<close>

definition stripBearer :: "string \<Rightarrow> string" where
  "stripBearer token =
     (if map lowerAscii (take 6 token) = ''bearer''
         \<and> drop 6 token \<noteq> [] \<and> isSpace (hd (drop 6 token))
      then dropWhile isSpace (drop 6 token)
      else token)"

definition cleanToken :: "string \<Rightarrow> string" where
  "cleanToken token = trim (stripBearer token)"

text \<open>
  \<open>maskToken\<close>: the empty token has its own marker; a clean token of at most 8 characters is
  redacted whole; otherwise the first and last four characters are kept around
  \<open>min 12 (length - 8)\<close> asterisks.
\<close>

definition maskToken :: "string \<Rightarrow> string" where
  "maskToken token =
     (if token = [] then ''[EMPTY]''
      else let clean = cleanToken token in
        if length clean \<le> 8 then ''[REDACTED]''
        else take 4 clean
             @ replicate (min 12 (length clean - 8)) (CHR ''*'')
             @ drop (length clean - 4) clean)"

section \<open>Authentication rate limiter (security.ts)\<close>

record attempt_record =
  count :: int
  firstAttempt :: int

record AuthRateLimiter =
  attempts :: "string \<rightharpoonup> attempt_record"
  maxAttempts :: int
  windowMs :: int

text \<open>
  \<open>isAllowed\<close> reads the clock once; the reading is the argument \<open>now\<close>. The result is
  the answer together with the limiter after the call.
\<close>

definition isAllowed :: "AuthRateLimiter \<Rightarrow> string \<Rightarrow> int \<Rightarrow> bool \<times> AuthRateLimiter" where
  "isAllowed l identifier now =
     (case attempts l identifier of
        None \<Rightarrow>
          (True, l\<lparr>attempts := (attempts l)(identifier \<mapsto> \<lparr>count = 1, firstAttempt = now\<rparr>)\<rparr>)
      | Some r \<Rightarrow>
          if now - firstAttempt r > windowMs l then
            (True, l\<lparr>attempts := (attempts l)(identifier \<mapsto> \<lparr>count = 1, firstAttempt = now\<rparr>)\<rparr>)
          else if count r \<ge> maxAttempts l then (False, l)
          else (True, l\<lparr>attempts := (attempts l)(identifier \<mapsto> r\<lparr>count := count r + 1\<rparr>)\<rparr>))"

definition getRemainingAttempts :: "AuthRateLimiter \<Rightarrow> string \<Rightarrow> int \<Rightarrow> int" where
  "getRemainingAttempts l identifier now =
     (case attempts l identifier of
        None \<Rightarrow> maxAttempts l
      | Some r \<Rightarrow>
          if now - firstAttempt r > windowMs l then maxAttempts l
          else max 0 (maxAttempts l - count r))"

text \<open>A run of calls for one identifier, at the given clock readings, oldest first.\<close>

fun isAllowed_calls :: "AuthRateLimiter \<Rightarrow> string \<Rightarrow> int list \<Rightarrow> bool list \<times> AuthRateLimiter" where
  "isAllowed_calls l identifier [] = ([], l)"
| "isAllowed_calls l identifier (t # ts) =
     (let (b, l') = isAllowed l identifier t;
          (bs, l'') = isAllowed_calls l' identifier ts
      in (b # bs, l''))"

section \<open>Request descriptors and keys (performance.ts)\<close>

text \<open>
  Of an \<open>AxiosRequestConfig\<close> the code reads \<open>method\<close> (here \<open>req_method\<close>), \<open>url\<close>
  and \<open>params\<close>. An absent field is \<open>None\<close>. The field \<open>params\<close> holds the text that
  \<open>new URLSearchParams(config.params).toString()\<close> gives for the parameters object, a
  library function that is not part of this code.
\<close>

record AxiosRequestConfig =
  req_method :: "string option"
  url :: "string option"
  params :: "string option"

text \<open>
  \<open>String.prototype.toUpperCase\<close> on code units 0..255: the letters a..z and the
  Latin-1 letters from 0xE0 to 0xFE other than the division sign 0xF7 move down by 32, and
  the sharp s 0xDF becomes \<open>SS\<close>. The micro sign 0xB5 and the y with diaeresis 0xFF have
  upper-case forms above 255, outside the strings modelled here; they are left as they are.
\<close>

definition upperChar :: "char \<Rightarrow> string" where
  "upperChar c =
     (let n = (of_char c :: nat) in
      if (97 \<le> n \<and> n \<le> 122) \<or> (224 \<le> n \<and> n \<le> 254 \<and> n \<noteq> 247) then [char_of (n - 32)]
      else if n = 223 then ''SS''
      else [c])"

definition toUpperCase :: "string \<Rightarrow> string" where
  "toUpperCase s = concat (map upperChar s)"

text \<open>\<open>config.method?.toUpperCase() || 'GET'\<close>: an absent or empty method is \<open>GET\<close>.\<close>

definition methodPart :: "AxiosRequestConfig \<Rightarrow> string" where
  "methodPart cfg =
     (case req_method cfg of
        None \<Rightarrow> ''GET''
      | Some m \<Rightarrow> if toUpperCase m = [] then ''GET'' else toUpperCase m)"

text \<open>An absent value inside a template literal prints as \<open>undefined\<close>.\<close>

definition createCacheKey :: "AxiosRequestConfig \<Rightarrow> string" where
  "createCacheKey cfg =
     (let key = methodPart cfg @ '':'' @ (case url cfg of None \<Rightarrow> ''undefined'' | Some u \<Rightarrow> u)
      in case params cfg of
           None \<Rightarrow> key
         | Some q \<Rightarrow> key @ ''?'' @ q)"

text \<open>\<open>config.url?.split('?')[0]\<close>: the part of the URL before the first question mark.\<close>

definition getBatchKey :: "AxiosRequestConfig \<Rightarrow> string" where
  "getBatchKey cfg =
     methodPart cfg @ '':''
       @ (case url cfg of None \<Rightarrow> ''undefined'' | Some u \<Rightarrow> takeWhile (\<lambda>c. c \<noteq> CHR ''?'') u)"

section \<open>Response cache (performance.ts)\<close>

record 'd CacheEntry =
  data :: 'd
  timestamp :: int
  etag :: "string option"
  lastModified :: "string option"
  expires :: "int option"

record 'd AxiosResponse =
  resp_data :: 'd
  resp_headers :: "string \<rightharpoonup> string"

text \<open>
  A JavaScript \<open>Map\<close> iterates in the order in which its keys were first inserted;
  setting a key that is present keeps its place. It is an association list, oldest key
  first: \<open>map_of\<close> is \<open>Map.get\<close>, \<open>AList.update\<close> is \<open>Map.set\<close>, \<open>AList.delete\<close> is
  \<open>Map.delete\<close>, \<open>length\<close> is \<open>Map.size\<close>.
\<close>

record 'd ResponseCache =
  cache :: "(string \<times> 'd CacheEntry) list"
  defaultTtl :: int
  maxSize :: int

definition new_ResponseCache :: "int \<Rightarrow> int \<Rightarrow> 'd ResponseCache" where
  "new_ResponseCache defaultTtlMs maxSz = \<lparr>cache = [], defaultTtl = defaultTtlMs, maxSize = maxSz\<rparr>"

text \<open>
  \<open>entry.expires || this.defaultTtl\<close>: the operator \<open>||\<close> takes its right operand when
  the left one is absent or is the number 0.
\<close>

definition entryTtl :: "'d ResponseCache \<Rightarrow> 'd CacheEntry \<Rightarrow> int" where
  "entryTtl c entry =
     (case expires entry of
        None \<Rightarrow> defaultTtl c
      | Some t \<Rightarrow> if t = 0 then defaultTtl c else t)"

text \<open>\<open>get\<close>: the result is the entry or \<open>None\<close> for \<open>null\<close>, and the cache after the call.\<close>

definition ResponseCache_get ::
  "'d ResponseCache \<Rightarrow> AxiosRequestConfig \<Rightarrow> int \<Rightarrow> 'd CacheEntry option \<times> 'd ResponseCache" where
  "ResponseCache_get c cfg now =
     (let key = createCacheKey cfg in
      case map_of (cache c) key of
        None \<Rightarrow> (None, c)
      | Some entry \<Rightarrow>
          if now - timestamp entry > entryTtl c entry
          then (None, c\<lparr>cache := AList.delete key (cache c)\<rparr>)
          else (Some entry, c))"

text \<open>
  \<open>set\<close>: when the map is full its first key is read with \<open>keys().next().value\<close> and
  deleted, unless that value is falsy: \<open>undefined\<close> for an empty map, or the empty string.
\<close>

definition evictOldest :: "'d ResponseCache \<Rightarrow> (string \<times> 'd CacheEntry) list" where
  "evictOldest c =
     (if int (length (cache c)) \<ge> maxSize c then
        (case cache c of
           [] \<Rightarrow> cache c
         | (oldestKey, _) # _ \<Rightarrow>
             if oldestKey \<noteq> [] then AList.delete oldestKey (cache c) else cache c)
      else cache c)"

definition ResponseCache_set ::
  "'d ResponseCache \<Rightarrow> AxiosRequestConfig \<Rightarrow> 'd AxiosResponse \<Rightarrow> int option \<Rightarrow> int
     \<Rightarrow> 'd ResponseCache" where
  "ResponseCache_set c cfg response ttlMs now =
     (let kept = evictOldest c;
          key = createCacheKey cfg;
          entry = \<lparr>data = resp_data response, timestamp = now,
                   etag = resp_headers response ''etag'',
                   lastModified = resp_headers response ''last-modified'',
                   expires = ttlMs\<rparr>
      in c\<lparr>cache := AList.update key entry kept\<rparr>)"

definition ResponseCache_size :: "'d ResponseCache \<Rightarrow> nat" where
  "ResponseCache_size c = length (cache c)"

text \<open>A run of \<open>set\<close> calls, each with its request, response, TTL and clock reading.\<close>

fun ResponseCache_sets ::
  "'d ResponseCache \<Rightarrow> (AxiosRequestConfig \<times> 'd AxiosResponse \<times> int option \<times> int) list
     \<Rightarrow> 'd ResponseCache" where
  "ResponseCache_sets c [] = c"
| "ResponseCache_sets c ((cfg, response, ttlMs, now) # rest) =
     ResponseCache_sets (ResponseCache_set c cfg response ttlMs now) rest"

text \<open>
  What the maintained map looks like: no key twice and no empty key. Every key comes from
  \<open>createCacheKey\<close>, which always writes a colon.
\<close>

definition cache_ok :: "'d ResponseCache \<Rightarrow> bool" where
  "cache_ok c \<longleftrightarrow> distinct (map fst (cache c)) \<and> [] \<notin> fst ` set (cache c)"

text \<open>A request and a response for concrete runs.\<close>

definition example_config :: AxiosRequestConfig where
  "example_config = \<lparr>req_method = Some ''get'', url = Some ''/items'', params = None\<rparr>"

definition example_response :: "nat AxiosResponse" where
  "example_response = \<lparr>resp_data = 7, resp_headers = Map.empty\<rparr>"

definition example_config2 :: AxiosRequestConfig where
  "example_config2 = \<lparr>req_method = None, url = Some ''/users'', params = None\<rparr>"

definition example_config3 :: AxiosRequestConfig where
  "example_config3 = \<lparr>req_method = Some ''GET'', url = Some ''/orders'', params = Some ''page=2''\<rparr>"

definition example_sets ::
  "(AxiosRequestConfig \<times> nat AxiosResponse \<times> int option \<times> int) list" where
  "example_sets =
     [(example_config, example_response, None, 0),
      (example_config2, example_response, None, 1),
      (example_config3, example_response, None, 2)]"

section \<open>Request batcher (performance.ts)\<close>

text \<open>
  Every call of \<open>add\<close> makes a new promise; promises are numbered in the order of their
  creation, and the functions \<open>resolve\<close> and \<open>reject\<close> kept with a request are those of
  its promise. A promise is settled with a value or with an error. The value is
  \<open>results[index]\<close>, which is \<open>undefined\<close> (here \<open>None\<close>) past the end of \<open>results\<close>.
\<close>

datatype ('e, 'r) outcome = Resolved "'r option" | Rejected 'e

record pending_request =
  config :: AxiosRequestConfig
  promise :: nat

text \<open>
  A batch holds its requests in the order of \<open>push\<close> and the handle that \<open>setTimeout\<close>
  returned for it; handles are numbered in the order of the calls of \<open>setTimeout\<close>.
\<close>

record batch =
  requests :: "pending_request list"
  timeout :: nat

text \<open>
  What a call of an executor does: it throws before it returns a promise, or it returns a
  promise that is later rejected with an error, or one that is later fulfilled with the
  list of results.
\<close>

datatype ('e, 'r) awaited = Throws 'e | Rejects 'e | Fulfils "'r list"

type_synonym ('e, 'r) executor = "AxiosRequestConfig list \<Rightarrow> ('e, 'r) awaited"

text \<open>
  What the batcher does that can be seen from outside, in the order in which it does it:
  \<open>this.batches.delete(batchKey)\<close> for the batch with the given handle, the call of the
  executor for that batch, and the settling of a promise.
\<close>

datatype ('e, 'r) effect =
  Removed string nat
| Invoked nat "AxiosRequestConfig list"
| Settled nat "('e, 'r) outcome"

text \<open>
  The batcher. A timer is the pending callback \<open>() => this.executeBatch(batchKey, executor)\<close>,
  that is the key and the executor it has captured; \<open>clearTimeout\<close> removes the timer. The
  delay \<open>batchWindow\<close> itself is not modelled: an armed timer may fire at any later moment.
  An execution of \<open>executeBatch\<close> that is suspended at its \<open>await\<close> holds its batch and
  waits for the promise of the executor; \<open>inflight\<close> keeps, under the handle of the batch,
  the batch and what that promise will give (\<open>Inl\<close> the error of a rejection).
\<close>

record ('e, 'r) RequestBatcher =
  batches :: "string \<rightharpoonup> batch"
  timers :: "nat \<rightharpoonup> string \<times> ('e, 'r) executor"
  inflight :: "nat \<rightharpoonup> batch \<times> ('e + 'r list)"
  nextTimer :: nat
  nextPromise :: nat
  batchWindow :: int
  maxBatchSize :: int

definition new_RequestBatcher :: "int \<Rightarrow> int \<Rightarrow> ('e, 'r) RequestBatcher" where
  "new_RequestBatcher batchWindowMs maxSz =
     \<lparr>batches = Map.empty, timers = Map.empty, inflight = Map.empty,
      nextTimer = 0, nextPromise = 0, batchWindow = batchWindowMs, maxBatchSize = maxSz\<rparr>"

text \<open>\<open>batch.requests.forEach((req, index) => req.resolve(results[index]))\<close>\<close>

definition resolveAll :: "batch \<Rightarrow> 'r list \<Rightarrow> ('e, 'r) effect list" where
  "resolveAll bt results =
     map (\<lambda>(req, index).
            Settled (promise req)
              (Resolved (if index < length results then Some (results ! index) else None)))
         (zip (requests bt) [0..<length (requests bt)])"

text \<open>\<open>batch.requests.forEach(req => req.reject(error))\<close>\<close>

definition rejectAll :: "batch \<Rightarrow> 'e \<Rightarrow> ('e, 'r) effect list" where
  "rejectAll bt error = map (\<lambda>req. Settled (promise req) (Rejected error)) (requests bt)"

text \<open>
  \<open>executeBatch\<close> up to its \<open>await\<close>: nothing happens when the key has no batch.
  Otherwise the batch is deleted from the map and then the executor is called on the
  configurations. When the call throws, the \<open>catch\<close> block rejects every request at once.
  Otherwise the execution is suspended until the promise of the executor is settled.
\<close>

definition executeBatch ::
  "('e, 'r) RequestBatcher \<Rightarrow> string \<Rightarrow> ('e, 'r) executor
     \<Rightarrow> ('e, 'r) RequestBatcher \<times> ('e, 'r) effect list" where
  "executeBatch b batchKey ex =
     (case batches b batchKey of
        None \<Rightarrow> (b, [])
      | Some bt \<Rightarrow>
          let b' = b\<lparr>batches := (batches b)(batchKey := None)\<rparr>;
              configs = map config (requests bt);
              called = [Removed batchKey (timeout bt), Invoked (timeout bt) configs]
          in case ex configs of
               Throws error \<Rightarrow> (b', called @ rejectAll bt error)
             | Rejects error \<Rightarrow>
                 (b'\<lparr>inflight := (inflight b')(timeout bt \<mapsto> (bt, Inl error))\<rparr>, called)
             | Fulfils results \<Rightarrow>
                 (b'\<lparr>inflight := (inflight b')(timeout bt \<mapsto> (bt, Inr results))\<rparr>, called))"

text \<open>
  \<open>executeBatch\<close> after its \<open>await\<close>, for the execution that holds the batch with handle
  \<open>h\<close>: the requests of that batch are resolved by position, or all rejected with the
  error of the rejected promise.
\<close>

definition executeBatch_resumed ::
  "('e, 'r) RequestBatcher \<Rightarrow> nat \<Rightarrow> ('e, 'r) RequestBatcher \<times> ('e, 'r) effect list" where
  "executeBatch_resumed b h =
     (case inflight b h of
        None \<Rightarrow> (b, [])
      | Some (bt, res) \<Rightarrow>
          (b\<lparr>inflight := (inflight b)(h := None)\<rparr>,
           case res of
             Inr results \<Rightarrow> resolveAll bt results
           | Inl error \<Rightarrow> rejectAll bt error))"

text \<open>
  \<open>add\<close>: the result is the number of the new promise, the batcher after the call and
  what the call did.
\<close>

definition add ::
  "('e, 'r) RequestBatcher \<Rightarrow> AxiosRequestConfig \<Rightarrow> ('e, 'r) executor
     \<Rightarrow> nat \<times> ('e, 'r) RequestBatcher \<times> ('e, 'r) effect list" where
  "add b cfg ex =
     (let p = nextPromise b;
          b1 = b\<lparr>nextPromise := p + 1\<rparr>;
          batchKey = getBatchKey cfg;
          (bt, b2) =
            (case batches b1 batchKey of
               Some bt \<Rightarrow> (bt, b1)
             | None \<Rightarrow>
                 (\<lparr>requests = [], timeout = nextTimer b1\<rparr>,
                  b1\<lparr>timers := (timers b1)(nextTimer b1 \<mapsto> (batchKey, ex)),
                     nextTimer := nextTimer b1 + 1\<rparr>));
          bt' = bt\<lparr>requests := requests bt @ [\<lparr>config = cfg, promise = p\<rparr>]\<rparr>;
          b3 = b2\<lparr>batches := (batches b2)(batchKey \<mapsto> bt')\<rparr>
      in if int (length (requests bt')) \<ge> maxBatchSize b3
         then (p, executeBatch (b3\<lparr>timers := (timers b3)(timeout bt' := None)\<rparr>) batchKey ex)
         else (p, b3, []))"

text \<open>
  An armed timer fires: it is no longer pending, and its callback runs. A handle that is
  not armed (never set, cleared, or fired before) does nothing.
\<close>

definition fire ::
  "('e, 'r) RequestBatcher \<Rightarrow> nat \<Rightarrow> ('e, 'r) RequestBatcher \<times> ('e, 'r) effect list" where
  "fire b h =
     (case timers b h of
        None \<Rightarrow> (b, [])
      | Some (batchKey, ex) \<Rightarrow> executeBatch (b\<lparr>timers := (timers b)(h := None)\<rparr>) batchKey ex)"

text \<open>
  What happens to a batcher, in any order: a call of \<open>add\<close>, a timer firing, and the
  promise of an executor being settled, which resumes the execution that awaits it.
\<close>

datatype ('e, 'r) event = Add AxiosRequestConfig "('e, 'r) executor" | Fire nat | Settle nat

definition step ::
  "('e, 'r) RequestBatcher \<Rightarrow> ('e, 'r) event \<Rightarrow> ('e, 'r) RequestBatcher \<times> ('e, 'r) effect list" where
  "step b ev =
     (case ev of
        Add cfg ex \<Rightarrow> snd (add b cfg ex)
      | Fire h \<Rightarrow> fire b h
      | Settle h \<Rightarrow> executeBatch_resumed b h)"

text \<open>A run of events; the result is the final batcher and all that was done, in order.\<close>

fun run ::
  "('e, 'r) RequestBatcher \<Rightarrow> ('e, 'r) event list \<Rightarrow> ('e, 'r) RequestBatcher \<times> ('e, 'r) effect list" where
  "run b [] = (b, [])"
| "run b (ev # evs) =
     (let (b', done) = step b ev;
          (b'', rest) = run b' evs
      in (b'', done @ rest))"

text \<open>
  The calls of \<open>add\<close> in a run, in order. On a new batcher the call number \<open>i\<close> (from 0)
  makes the promise number \<open>i\<close>.
\<close>

fun adds_of :: "('e, 'r) event list \<Rightarrow> (AxiosRequestConfig \<times> ('e, 'r) executor) list" where
  "adds_of [] = []"
| "adds_of (Add cfg ex # evs) = (cfg, ex) # adds_of evs"
| "adds_of (Fire h # evs) = adds_of evs"
| "adds_of (Settle h # evs) = adds_of evs"

text \<open>The handles of the batches for which the executor was called, in order.\<close>

fun invoked_handles :: "('e, 'r) effect list \<Rightarrow> nat list" where
  "invoked_handles [] = []"
| "invoked_handles (Invoked h configs # rest) = h # invoked_handles rest"
| "invoked_handles (Removed k h # rest) = invoked_handles rest"
| "invoked_handles (Settled p out # rest) = invoked_handles rest"

section \<open>Health monitor\<close>

text \<open>
  The counters are natural numbers. The other numbers of the monitor are JavaScript
  doubles; they are modelled by exact rationals. For counters below \<open>2^48\<close> the comparisons
  of \<open>getHealthStatus\<close> give the same answers in doubles and in exact arithmetic:
  \<open>n * 0.1\<close> rounds to \<open>n / 10\<close> when that is a whole number, and a success rate whose
  exact value is at least (below) 95 is computed as at least (below) 95.
\<close>

datatype auth_event = Success | Failure | Ratelimited

record HealthMonitor =
  startTime :: int
  req_total :: nat
  req_successful :: nat
  req_failed :: nat
  avgResponseTime :: rat
  auth_successful :: nat
  auth_failed :: nat
  auth_rateLimited :: nat
  cache_hits :: nat
  cache_misses :: nat
  err_count :: nat
  lastError :: "string option"
  lastErrorTime :: "int option"
  responseTimes :: "rat list"

definition new_HealthMonitor :: "int \<Rightarrow> HealthMonitor" where
  "new_HealthMonitor now =
     \<lparr>startTime = now, req_total = 0, req_successful = 0, req_failed = 0, avgResponseTime = 0,
      auth_successful = 0, auth_failed = 0, auth_rateLimited = 0,
      cache_hits = 0, cache_misses = 0,
      err_count = 0, lastError = None, lastErrorTime = None, responseTimes = []\<rparr>"

definition recordRequest :: "HealthMonitor \<Rightarrow> bool \<Rightarrow> rat \<Rightarrow> HealthMonitor" where
  "recordRequest m success responseTime =
     (let m1 = m\<lparr>req_total := req_total m + 1\<rparr>;
          m2 = (if success then m1\<lparr>req_successful := req_successful m1 + 1\<rparr>
                else m1\<lparr>req_failed := req_failed m1 + 1\<rparr>);
          pushed = responseTimes m2 @ [responseTime];
          times = (if length pushed > 1000 then tl pushed else pushed)
      in m2\<lparr>responseTimes := times,
            avgResponseTime := sum_list times / of_nat (length times)\<rparr>)"

definition recordAuth :: "HealthMonitor \<Rightarrow> auth_event \<Rightarrow> HealthMonitor" where
  "recordAuth m event =
     (case event of
        Success \<Rightarrow> m\<lparr>auth_successful := auth_successful m + 1\<rparr>
      | Failure \<Rightarrow> m\<lparr>auth_failed := auth_failed m + 1\<rparr>
      | Ratelimited \<Rightarrow> m\<lparr>auth_rateLimited := auth_rateLimited m + 1\<rparr>)"

definition recordCacheHit :: "HealthMonitor \<Rightarrow> bool \<Rightarrow> HealthMonitor" where
  "recordCacheHit m hit =
     (if hit then m\<lparr>cache_hits := cache_hits m + 1\<rparr> else m\<lparr>cache_misses := cache_misses m + 1\<rparr>)"

definition recordError :: "HealthMonitor \<Rightarrow> string \<Rightarrow> int \<Rightarrow> HealthMonitor" where
  "recordError m message now =
     m\<lparr>err_count := err_count m + 1, lastError := Some message, lastErrorTime := Some now\<rparr>"

datatype health = Healthy | Degraded | Unhealthy

record health_checks =
  highSuccessRate :: bool
  noRecentErrors :: bool
  reasonableResponseTime :: bool
  authWorking :: bool

record health_report =
  status :: health
  uptime :: int
  checks :: health_checks

text \<open>
  \<open>getHealthStatus\<close> with the clock reading \<open>now\<close>. \<open>!lastErrorTime\<close> holds when no
  error time is recorded and when the recorded time is the number 0. The report also holds
  a copy of the metrics, with the two rates rounded to two decimals by \<open>Math.round\<close>;
  that copy is not part of the model, which keeps the status, the uptime and the checks.
\<close>

definition getHealthStatus :: "HealthMonitor \<Rightarrow> int \<Rightarrow> health_report" where
  "getHealthStatus m now =
     (let rate = (if req_total m > 0
                  then (of_nat (req_successful m) / of_nat (req_total m)) * 100
                  else (100 :: rat));
          cacheHitRate = (if cache_hits m + cache_misses m > 0
                          then (of_nat (cache_hits m) / of_nat (cache_hits m + cache_misses m)) * 100
                          else (0 :: rat));
          ch = \<lparr>highSuccessRate = (rate \<ge> 95),
                noRecentErrors =
                  (case lastErrorTime m of
                     None \<Rightarrow> True
                   | Some t \<Rightarrow> t = 0 \<or> now - t > 5 * 60 * 1000),
                reasonableResponseTime = (avgResponseTime m < 5000),
                authWorking = (of_nat (auth_failed m) < of_nat (auth_successful m) * (1 / 10 :: rat))\<rparr>;
          healthyChecks = length (filter (\<lambda>x. x)
             [highSuccessRate ch, noRecentErrors ch, reasonableResponseTime ch, authWorking ch]);
          totalChecks = (4 :: nat);
          st = (if healthyChecks = totalChecks then Healthy
                else if (of_nat healthyChecks :: rat) \<ge> of_nat totalChecks * (7 / 10) then Degraded
                else Unhealthy)
      in \<lparr>status = st, uptime = now - startTime m, checks = ch\<rparr>)"

text \<open>What is recorded in a monitor, and a run of such records, oldest first.\<close>

datatype monitor_event =
  Request bool rat | Auth auth_event | CacheHit bool | Error string int

fun record_event :: "HealthMonitor \<Rightarrow> monitor_event \<Rightarrow> HealthMonitor" where
  "record_event m (Request success responseTime) = recordRequest m success responseTime"
| "record_event m (Auth event) = recordAuth m event"
| "record_event m (CacheHit hit) = recordCacheHit m hit"
| "record_event m (Error message now) = recordError m message now"

fun record_events :: "HealthMonitor \<Rightarrow> monitor_event list \<Rightarrow> HealthMonitor" where
  "record_events m [] = m"
| "record_events m (e # es) = record_events (record_event m e) es"

text \<open>
  The monitor of the scenario: 100 requests of 200 ms each, 96 of them successful, and
  nothing else recorded.
\<close>

definition scenario_monitor :: HealthMonitor where
  "scenario_monitor =
     record_events (new_HealthMonitor 0)
       (replicate 96 (Request True 200) @ replicate 4 (Request False 200))"

section \<open>Runs and inputs used in the properties\<close>

text \<open>The limiter as its constructor makes it by default, for concrete runs.\<close>

definition limiter0 :: AuthRateLimiter where
  "limiter0 = \<lparr>attempts = Map.empty, maxAttempts = 5, windowMs = 900000\<rparr>"

text \<open>
  Three executors for concrete runs: one is fulfilled with the length of each URL, one
  returns a promise that is rejected, one throws when it is called.
\<close>

definition example_executor :: "(string, nat) executor" where
  "example_executor configs =
     Fulfils (map (\<lambda>c. case url c of None \<Rightarrow> 0 | Some u \<Rightarrow> length u) configs)"

definition failing_executor :: "(string, nat) executor" where
  "failing_executor configs = Rejects ''upstream failed''"

definition throwing_executor :: "(string, nat) executor" where
  "throwing_executor configs = Throws ''no route''"

text \<open>A request with the batch key of \<open>example_config\<close> and another URL.\<close>

definition example_config4 :: AxiosRequestConfig where
  "example_config4 = \<lparr>req_method = Some ''get'', url = Some ''/items?page=2'', params = None\<rparr>"

text \<open>
  A batcher with \<open>maxBatchSize = 3\<close> and a run of it in which requests of two keys are
  mixed: the group of \<open>GET:/items\<close> is filled by its third request, whose executor throws;
  its timer then fires in vain; a second group of that key is opened and later flushed by
  its timer while the group of \<open>GET:/users\<close> is flushed by its own timer in between.
\<close>

definition example_batcher :: "(string, nat) RequestBatcher" where
  "example_batcher = new_RequestBatcher 100 3"

definition example_events :: "(string, nat) event list" where
  "example_events =
     [Add example_config example_executor, Add example_config4 failing_executor,
      Add example_config2 example_executor, Add example_config throwing_executor,
      Fire 0, Add example_config failing_executor, Settle 0, Fire 1, Settle 1,
      Add example_config4 example_executor, Fire 2, Settle 2]"

text \<open>The batcher that a run on \<open>example_batcher\<close> reaches, and what was done in that run.\<close>

definition state_after :: "(string, nat) event list \<Rightarrow> (string, nat) RequestBatcher" where
  "state_after evs = fst (run example_batcher evs)"

definition trace_of :: "(string, nat) event list \<Rightarrow> (string, nat) effect list" where
  "trace_of evs = snd (run example_batcher evs)"

section \<open>Notions used in the properties of the request batcher\<close>

text \<open>
  The requests that wait under a key (none when the key has no group), and the handle of
  the group that a call of \<open>add\<close> for that key pushes to: the handle of the group in the
  map, or the handle that \<open>setTimeout\<close> returns next when \<open>add\<close> opens a group.
\<close>

definition old_requests :: "('e, 'r) RequestBatcher \<Rightarrow> string \<Rightarrow> pending_request list" where
  "old_requests b k = (case batches b k of None \<Rightarrow> [] | Some bt \<Rightarrow> requests bt)"

definition group_handle :: "('e, 'r) RequestBatcher \<Rightarrow> string \<Rightarrow> nat" where
  "group_handle b k = (case batches b k of None \<Rightarrow> nextTimer b | Some bt \<Rightarrow> timeout bt)"

text \<open>
  What \<open>executeBatch\<close> does with a batch \<open>bt\<close> of key \<open>k\<close> once the call of the executor
  has given \<open>a\<close>: the promise it awaits, if the call returned one; the rejections of the
  \<open>catch\<close> block, if the call threw; the batcher after the synchronous part, in which the
  timer of the batch is not armed, the key has no group and the suspended execution, if
  any, holds the batch; and the effects of the synchronous part.
\<close>

definition launched :: "('e, 'r) awaited \<Rightarrow> ('e + 'r list) option" where
  "launched a = (case a of Throws e \<Rightarrow> None | Rejects e \<Rightarrow> Some (Inl e) | Fulfils rs \<Rightarrow> Some (Inr rs))"

definition thrown :: "batch \<Rightarrow> ('e, 'r) awaited \<Rightarrow> ('e, 'r) effect list" where
  "thrown bt a = (case a of Throws e \<Rightarrow> rejectAll bt e | Rejects e \<Rightarrow> [] | Fulfils rs \<Rightarrow> [])"

definition flush_state ::
  "('e, 'r) RequestBatcher \<Rightarrow> string \<Rightarrow> batch \<Rightarrow> ('e, 'r) awaited \<Rightarrow> ('e, 'r) RequestBatcher" where
  "flush_state b k bt a =
     b\<lparr>timers := (timers b)(timeout bt := None),
       batches := (batches b)(k := None),
       inflight := (case launched a of
                      None \<Rightarrow> inflight b
                    | Some res \<Rightarrow> (inflight b)(timeout bt \<mapsto> (bt, res)))\<rparr>"

definition flush_effects :: "string \<Rightarrow> batch \<Rightarrow> ('e, 'r) awaited \<Rightarrow> ('e, 'r) effect list" where
  "flush_effects k bt a =
     [Removed k (timeout bt), Invoked (timeout bt) (map config (requests bt))] @ thrown bt a"

text \<open>
  In a list of effects, every call of an executor comes right after the removal of the
  batch with the same handle, and every removal is followed by such a call.
\<close>

fun ordered :: "('e, 'r) effect list \<Rightarrow> bool" where
  "ordered [] = True"
| "ordered (Removed k h # Invoked h' configs # rest) = (h = h' \<and> ordered rest)"
| "ordered (Settled p out # rest) = ordered rest"
| "ordered (Removed k h # rest) = False"
| "ordered (Invoked h configs # rest) = False"

text \<open>
  The map and the timers fit together: every group in the map has its timer armed, every
  armed timer belongs to the group of its key, and the armed handles were given out by
  \<open>setTimeout\<close>. A handle is dead when it was given out and is not armed: its timer has
  fired or was cleared.
\<close>

definition batcher_ok :: "('e, 'r) RequestBatcher \<Rightarrow> bool" where
  "batcher_ok b \<longleftrightarrow>
     (\<forall>k bt. batches b k = Some bt \<longrightarrow> (\<exists>ex. timers b (timeout bt) = Some (k, ex)))
     \<and> (\<forall>h k ex. timers b h = Some (k, ex) \<longrightarrow> (\<exists>bt. batches b k = Some bt \<and> timeout bt = h))
     \<and> (\<forall>h. h \<in> dom (timers b) \<longrightarrow> h < nextTimer b)"

definition dead :: "('e, 'r) RequestBatcher \<Rightarrow> nat set" where
  "dead b = {h. h < nextTimer b \<and> h \<notin> dom (timers b)}"

text \<open>
  A batcher and the calls of \<open>add\<close> made so far, \<open>adds\<close>, fit together: the promise number
  \<open>i\<close> belongs to the call number \<open>i\<close>; the requests of a group are in the order of their
  calls and have the key of the group; a group in the map is below \<open>maxBatchSize\<close>; an armed
  timer holds the executor of the call that pushed the first request of its group; a
  suspended execution has a dead handle and awaits what the executor it was started with
  gives on the configurations of its batch. That executor is the one of the first request
  when the batch is below \<open>maxBatchSize\<close> and the one of the last request otherwise.
\<close>

definition group_ok ::
  "(AxiosRequestConfig \<times> ('e, 'r) executor) list \<Rightarrow> string \<Rightarrow> batch \<Rightarrow> bool" where
  "group_ok adds k bt \<longleftrightarrow>
     requests bt \<noteq> []
     \<and> sorted_wrt (<) (map promise (requests bt))
     \<and> (\<forall>r \<in> set (requests bt).
           promise r < length adds \<and> config r = fst (adds ! promise r) \<and> getBatchKey (config r) = k)"

definition first_executor ::
  "(AxiosRequestConfig \<times> ('e, 'r) executor) list \<Rightarrow> batch \<Rightarrow> ('e, 'r) executor" where
  "first_executor adds bt = snd (adds ! promise (hd (requests bt)))"

definition used_executor ::
  "(AxiosRequestConfig \<times> ('e, 'r) executor) list \<Rightarrow> int \<Rightarrow> batch \<Rightarrow> ('e, 'r) executor" where
  "used_executor adds m bt =
     (if int (length (requests bt)) < m then snd (adds ! promise (hd (requests bt)))
      else snd (adds ! promise (last (requests bt))))"

definition groups_ok ::
  "(AxiosRequestConfig \<times> ('e, 'r) executor) list \<Rightarrow> ('e, 'r) RequestBatcher \<Rightarrow> bool" where
  "groups_ok adds b \<longleftrightarrow>
     (\<forall>k bt. batches b k = Some bt \<longrightarrow>
        group_ok adds k bt \<and> int (length (requests bt)) < maxBatchSize b)"

definition timers_ok ::
  "(AxiosRequestConfig \<times> ('e, 'r) executor) list \<Rightarrow> ('e, 'r) RequestBatcher \<Rightarrow> bool" where
  "timers_ok adds b \<longleftrightarrow>
     (\<forall>h k ex bt. timers b h = Some (k, ex) \<longrightarrow> batches b k = Some bt \<longrightarrow>
        ex = first_executor adds bt)"

definition entry_ok ::
  "(AxiosRequestConfig \<times> ('e, 'r) executor) list \<Rightarrow> nat set \<Rightarrow> int \<Rightarrow> nat \<Rightarrow> batch
     \<Rightarrow> 'e + 'r list \<Rightarrow> bool" where
  "entry_ok adds D m h bt res \<longleftrightarrow>
     timeout bt = h \<and> h \<in> D \<and> (\<exists>k. group_ok adds k bt)
     \<and> launched (used_executor adds m bt (map config (requests bt))) = Some res"

definition inflight_ok ::
  "(AxiosRequestConfig \<times> ('e, 'r) executor) list \<Rightarrow> ('e, 'r) RequestBatcher \<Rightarrow> bool" where
  "inflight_ok adds b \<longleftrightarrow>
     (\<forall>h bt res. inflight b h = Some (bt, res) \<longrightarrow> entry_ok adds (dead b) (maxBatchSize b) h bt res)"

definition hist_ok ::
  "(AxiosRequestConfig \<times> ('e, 'r) executor) list \<Rightarrow> ('e, 'r) RequestBatcher \<Rightarrow> bool" where
  "hist_ok adds b \<longleftrightarrow>
     batcher_ok b \<and> nextPromise b = length adds \<and> groups_ok adds b \<and> timers_ok adds b
     \<and> inflight_ok adds b"

section \<open>Properties of token masking\<close>

lemmas maskToken_eval = maskToken_def cleanToken_def trim_def stripBearer_def isSpace_def lowerAscii_def

text \<open>
  C8, as stated, at the empty token: after stripping, the empty token has no more than 8
  characters, and \<open>maskToken\<close> answers \<open>[EMPTY]\<close>, which is not the marker \<open>[REDACTED]\<close>
  that it gives for \<open>short\<close>.
\<close>

theorem maskToken_empty_counterexample:
  "length (cleanToken '''') \<le> 8 \<and> maskToken '''' = ''[EMPTY]''
   \<and> maskToken ''short'' = ''[REDACTED]'' \<and> maskToken '''' \<noteq> maskToken ''short''"
  by (simp add: maskToken_eval)

text \<open>
  C8, amended: the empty token gives \<open>[EMPTY]\<close>. A token that is not empty and whose clean
  form (Bearer prefix stripped, whitespace trimmed) has at most 8 characters gives
  \<open>[REDACTED]\<close>. A token whose clean form is longer gives the first four characters of the
  clean form, then \<open>min 12 (length - 8)\<close> asterisks, then its last four characters.
  \<open>maskToken "abcd1234efgh5678"\<close> starts with \<open>abcd\<close> and ends with \<open>5678\<close>, and
  \<open>maskToken "short"\<close> is \<open>[REDACTED]\<close>.
\<close>

theorem maskToken_spec:
  "maskToken [] = ''[EMPTY]''
   \<and> (token \<noteq> [] \<and> length (cleanToken token) \<le> 8 \<longrightarrow> maskToken token = ''[REDACTED]'')
   \<and> (8 < length (cleanToken token) \<longrightarrow>
        maskToken token =
          take 4 (cleanToken token)
          @ replicate (min 12 (length (cleanToken token) - 8)) (CHR ''*'')
          @ drop (length (cleanToken token) - 4) (cleanToken token)
        \<and> take 4 (maskToken token) = take 4 (cleanToken token)
        \<and> drop (length (maskToken token) - 4) (maskToken token)
            = drop (length (cleanToken token) - 4) (cleanToken token)
        \<and> length (maskToken token) = 8 + min 12 (length (cleanToken token) - 8))
   \<and> take 4 (maskToken ''abcd1234efgh5678'') = ''abcd''
   \<and> drop 12 (maskToken ''abcd1234efgh5678'') = ''5678''
   \<and> maskToken ''abcd1234efgh5678'' = ''abcd********5678''
   \<and> maskToken ''short'' = ''[REDACTED]''"
proof -
  have e: "maskToken [] = ''[EMPTY]''"
    by (simp add: maskToken_def)
  have short: "token \<noteq> [] \<and> length (cleanToken token) \<le> 8 \<longrightarrow> maskToken token = ''[REDACTED]''"
    by (simp add: maskToken_def Let_def)
  have long: "8 < length (cleanToken token) \<longrightarrow>
        maskToken token =
          take 4 (cleanToken token)
          @ replicate (min 12 (length (cleanToken token) - 8)) (CHR ''*'')
          @ drop (length (cleanToken token) - 4) (cleanToken token)
        \<and> take 4 (maskToken token) = take 4 (cleanToken token)
        \<and> drop (length (maskToken token) - 4) (maskToken token)
            = drop (length (cleanToken token) - 4) (cleanToken token)
        \<and> length (maskToken token) = 8 + min 12 (length (cleanToken token) - 8)"
  proof
    assume l: "8 < length (cleanToken token)"
    then have ne: "token \<noteq> []"
      by (auto simp: cleanToken_def trim_def stripBearer_def)
    let ?c = "cleanToken token"
    let ?k = "min 12 (length ?c - 8)"
    have m: "maskToken token = take 4 ?c @ replicate ?k (CHR ''*'') @ drop (length ?c - 4) ?c"
      using l ne by (simp add: maskToken_def Let_def)
    have len: "length (maskToken token) = 8 + ?k"
      using l by (simp add: m)
    have t: "take 4 (maskToken token) = take 4 ?c"
      using l by (simp add: m)
    have d: "drop (length (maskToken token) - 4) (maskToken token) = drop (length ?c - 4) ?c"
      using l by (simp add: len) (simp add: m)
    show "maskToken token = take 4 ?c @ replicate ?k (CHR ''*'') @ drop (length ?c - 4) ?c
        \<and> take 4 (maskToken token) = take 4 ?c
        \<and> drop (length (maskToken token) - 4) (maskToken token) = drop (length ?c - 4) ?c
        \<and> length (maskToken token) = 8 + ?k"
      using m t d len by blast
  qed
  have ex: "maskToken ''abcd1234efgh5678'' = ''abcd********5678''"
    by (simp add: maskToken_eval)
  have sh: "maskToken ''short'' = ''[REDACTED]''"
    by (simp add: maskToken_eval)
  show ?thesis
    using e short long sh by (simp add: ex)
qed

theorem maskToken_spec_witness:
  "8 < length (cleanToken ''Bearer abcd1234efgh5678xyz'')
   \<and> take 4 (maskToken ''Bearer abcd1234efgh5678xyz'') = take 4 (cleanToken ''Bearer abcd1234efgh5678xyz'')
   \<and> ''bearer  x'' \<noteq> [] \<and> length (cleanToken ''bearer  x'') \<le> 8
   \<and> maskToken ''bearer  x'' = ''[REDACTED]''"
proof -
  have h1: "8 < length (cleanToken ''Bearer abcd1234efgh5678xyz'')"
    by code_simp
  have h2: "''bearer  x'' \<noteq> [] \<and> length (cleanToken ''bearer  x'') \<le> 8"
    by code_simp
  from maskToken_spec [of "''Bearer abcd1234efgh5678xyz''"] maskToken_spec [of "''bearer  x''"] h1 h2
  show ?thesis
    by blast
qed

section \<open>Properties of the rate limiter\<close>

text \<open>
  C4: with \<open>maxAttempts = 5\<close> and \<open>windowMs = 900000\<close>, for an identifier that has no
  record or an expired one, five calls of \<open>isAllowed\<close> within the window of the first
  return true; a sixth call within the window returns false and leaves the limiter as it
  is, the counter at 5; a call after the window has elapsed returns true and sets the record
  to count 1 with the time of that call as the start of the window.
\<close>

theorem isAllowed_window:
  assumes cfg: "maxAttempts l = 5" "windowMs l = 900000"
    and fresh: "attempts l identifier = None
                \<or> (\<exists>r. attempts l identifier = Some r \<and> t1 - firstAttempt r > windowMs l)"
    and within: "\<forall>t \<in> set [t2, t3, t4, t5, t6]. t - t1 \<le> 900000"
    and elapsed: "t7 - t1 > 900000"
  shows "fst (isAllowed_calls l identifier [t1, t2, t3, t4, t5, t6])
           = [True, True, True, True, True, False]
       \<and> attempts (snd (isAllowed_calls l identifier [t1, t2, t3, t4, t5])) identifier
           = Some \<lparr>count = 5, firstAttempt = t1\<rparr>
       \<and> snd (isAllowed_calls l identifier [t1, t2, t3, t4, t5, t6])
           = snd (isAllowed_calls l identifier [t1, t2, t3, t4, t5])
       \<and> fst (isAllowed (snd (isAllowed_calls l identifier [t1, t2, t3, t4, t5, t6])) identifier t7)
       \<and> attempts (snd (isAllowed (snd (isAllowed_calls l identifier [t1, t2, t3, t4, t5, t6]))
                          identifier t7)) identifier
           = Some \<lparr>count = 1, firstAttempt = t7\<rparr>"
proof -
  define l1 where "l1 = l\<lparr>attempts := (attempts l)(identifier \<mapsto> \<lparr>count = 1, firstAttempt = t1\<rparr>)\<rparr>"
  have c1: "isAllowed l identifier t1 = (True, l1)"
    using fresh by (auto simp: isAllowed_def l1_def)
  have step: "isAllowed (l\<lparr>attempts := (attempts l)(identifier \<mapsto> \<lparr>count = n, firstAttempt = t1\<rparr>)\<rparr>) identifier t
      = (True, l\<lparr>attempts := (attempts l)(identifier \<mapsto> \<lparr>count = n + 1, firstAttempt = t1\<rparr>)\<rparr>)"
    if "t - t1 \<le> 900000" "n < 5" for n t
    using that cfg by (simp add: isAllowed_def)
  define l5 where "l5 = l\<lparr>attempts := (attempts l)(identifier \<mapsto> \<lparr>count = 5, firstAttempt = t1\<rparr>)\<rparr>"
  have five: "isAllowed_calls l identifier [t1, t2, t3, t4, t5] = ([True, True, True, True, True], l5)"
    using within by (simp add: c1 l1_def step l5_def)
  have c6: "isAllowed l5 identifier t6 = (False, l5)"
    using within cfg by (simp add: isAllowed_def l5_def)
  have six: "isAllowed_calls l identifier [t1, t2, t3, t4, t5, t6]
      = ([True, True, True, True, True, False], l5)"
    using within c6 by (simp add: c1 l1_def step l5_def)
  have c7: "isAllowed l5 identifier t7
      = (True, l5\<lparr>attempts := (attempts l5)(identifier \<mapsto> \<lparr>count = 1, firstAttempt = t7\<rparr>)\<rparr>)"
    using elapsed cfg by (simp add: isAllowed_def l5_def)
  show ?thesis
    unfolding six five by (simp add: c7) (simp add: l5_def)
qed

theorem isAllowed_window_witness:
  "maxAttempts limiter0 = 5 \<and> windowMs limiter0 = 900000 \<and> attempts limiter0 ''client'' = None
   \<and> (1100 :: int) - 1000 \<le> 900000 \<and> (1200 :: int) - 1000 \<le> 900000
   \<and> (1300 :: int) - 1000 \<le> 900000 \<and> (1400 :: int) - 1000 \<le> 900000
   \<and> (901000 :: int) - 1000 \<le> 900000
   \<and> (901001 :: int) - 1000 > 900000
   \<and> fst (isAllowed_calls limiter0 ''client'' [1000, 1100, 1200, 1300, 1400, 901000])
        = [True, True, True, True, True, False]
   \<and> fst (isAllowed (snd (isAllowed_calls limiter0 ''client'' [1000, 1100, 1200, 1300, 1400, 901000]))
        ''client'' 901001)
   \<and> attempts (snd (isAllowed (snd (isAllowed_calls limiter0 ''client''
                 [1000, 1100, 1200, 1300, 1400, 901000])) ''client'' 901001)) ''client''
        = Some \<lparr>count = 1, firstAttempt = 901001\<rparr>"
proof -
  have h1: "maxAttempts limiter0 = 5" and h2: "windowMs limiter0 = 900000"
    and h3: "attempts limiter0 ''client'' = None"
    by (simp_all add: limiter0_def)
  have h3': "attempts limiter0 ''client'' = None
      \<or> (\<exists>r. attempts limiter0 ''client'' = Some r \<and> 1000 - firstAttempt r > windowMs limiter0)"
    using h3 by simp
  have h4: "\<forall>t \<in> set [1100, 1200, 1300, 1400, 901000 :: int]. t - 1000 \<le> 900000"
    by simp
  have h5: "(901001 :: int) - 1000 > 900000"
    by simp
  have a: "(1100 :: int) - 1000 \<le> 900000" "(1200 :: int) - 1000 \<le> 900000"
    "(1300 :: int) - 1000 \<le> 900000" "(1400 :: int) - 1000 \<le> 900000"
    "(901000 :: int) - 1000 \<le> 900000"
    by simp_all
  from isAllowed_window [OF h1 h2 h3' h4 h5] h1 h2 h3 a h5 show ?thesis
    by blast
qed

section \<open>Properties of the response cache\<close>

lemma createCacheKey_nonempty: "createCacheKey cfg \<noteq> []"
  by (simp add: createCacheKey_def Let_def split: option.splits)

lemma delete_head_distinct:
  "k \<notin> fst ` set rest \<Longrightarrow> AList.delete k ((k, e) # rest) = rest"
  by (simp add: AList.delete_eq) (induction rest, auto)

lemma length_update_le: "length (AList.update k v al) \<le> Suc (length al)"
  using arg_cong [OF AList.update_keys [of k v al], of length] by (simp split: if_splits)

lemma length_update_bound:
  "int (length al) < m \<Longrightarrow> int (length (AList.update k v al)) \<le> m"
  using length_update_le [of k v al] by linarith

lemma evictOldest_cases:
  assumes "cache_ok c"
  shows "(int (length (cache c)) < maxSize c \<longrightarrow> evictOldest c = cache c)
       \<and> (int (length (cache c)) \<ge> maxSize c \<longrightarrow>
            (cache c = [] \<and> evictOldest c = [])
          \<or> (\<exists>k e rest. cache c = (k, e) # rest \<and> k \<notin> fst ` set rest \<and> evictOldest c = rest))"
proof (cases "cache c")
  case Nil
  then show ?thesis by (simp add: evictOldest_def)
next
  case (Cons p rest)
  obtain k e where p: "p = (k, e)" by (cases p)
  from assms Cons p have k: "k \<noteq> []" "k \<notin> fst ` set rest"
    by (auto simp: cache_ok_def)
  show ?thesis
    using Cons p k delete_head_distinct [of k rest e]
    by (auto simp: evictOldest_def)
qed

lemma evictOldest_ok:
  assumes "cache_ok c"
  shows "distinct (map fst (evictOldest c)) \<and> [] \<notin> fst ` set (evictOldest c)"
  using evictOldest_cases [OF assms] assms
  by (cases "int (length (cache c)) < maxSize c") (auto simp: cache_ok_def)

lemma cache_ok_set: "cache_ok c \<Longrightarrow> cache_ok (ResponseCache_set c cfg response ttlMs now)"
  using evictOldest_ok [of c] createCacheKey_nonempty [of cfg]
  by (auto simp: cache_ok_def ResponseCache_set_def Let_def AList.distinct_update
      AList.update_keys simp flip: set_map)

lemma maxSize_set [simp]: "maxSize (ResponseCache_set c cfg response ttlMs now) = maxSize c"
  by (simp add: ResponseCache_set_def Let_def)

lemma defaultTtl_set [simp]: "defaultTtl (ResponseCache_set c cfg response ttlMs now) = defaultTtl c"
  by (simp add: ResponseCache_set_def Let_def)

lemma size_set_bounded:
  assumes "cache_ok c" "1 \<le> maxSize c" "int (length (cache c)) \<le> maxSize c"
  shows "int (length (cache (ResponseCache_set c cfg response ttlMs now))) \<le> maxSize c"
proof -
  have "int (length (evictOldest c)) < maxSize c"
    using evictOldest_cases [OF assms(1)] assms(2,3)
    by (cases "int (length (cache c)) < maxSize c") auto
  then show ?thesis
    by (simp add: ResponseCache_set_def Let_def length_update_bound)
qed

lemma sets_invariant:
  assumes "cache_ok c" "1 \<le> maxSize c" "int (length (cache c)) \<le> maxSize c"
  shows "cache_ok (ResponseCache_sets c ops)
       \<and> maxSize (ResponseCache_sets c ops) = maxSize c
       \<and> int (length (cache (ResponseCache_sets c ops))) \<le> maxSize c"
  using assms
proof (induction ops arbitrary: c)
  case Nil
  then show ?case by simp
next
  case (Cons op ops)
  obtain cfg response ttlMs now where op: "op = (cfg, response, ttlMs, now)"
    by (cases op)
  let ?c = "ResponseCache_set c cfg response ttlMs now"
  have "cache_ok ?c" "1 \<le> maxSize ?c" "int (length (cache ?c)) \<le> maxSize ?c"
    using Cons.prems by (simp_all add: cache_ok_set size_set_bounded)
  from Cons.IH [OF this] show ?case
    by (simp add: op)
qed

lemma set_keys_fresh:
  assumes "cache_ok c" "1 \<le> maxSize c" "int (length (cache c)) \<le> maxSize c"
    and "createCacheKey cfg \<notin> fst ` set (cache c)"
  shows "map fst (cache (ResponseCache_set c cfg response ttlMs now))
       = drop (length (cache c) + 1 - nat (maxSize c)) (map fst (cache c) @ [createCacheKey cfg])"
proof (cases "int (length (cache c)) < maxSize c")
  case True
  then have "evictOldest c = cache c"
    using evictOldest_cases [OF assms(1)] by simp
  moreover have "length (cache c) + 1 - nat (maxSize c) = 0"
    using True by linarith
  ultimately show ?thesis
    using assms(4) by (simp add: ResponseCache_set_def Let_def AList.update_keys flip: set_map)
next
  case False
  then have full: "int (length (cache c)) = maxSize c"
    using assms(3) by simp
  with assms(2) have "cache c \<noteq> []" by auto
  with evictOldest_cases [OF assms(1)] False
  obtain k e rest where r: "cache c = (k, e) # rest" "k \<notin> fst ` set rest" "evictOldest c = rest"
    by auto
  have one: "length (cache c) + 1 - nat (maxSize c) = 1"
    using full by linarith
  have "createCacheKey cfg \<notin> fst ` set rest"
    using assms(4) r(1) by auto
  then have "map fst (cache (ResponseCache_set c cfg response ttlMs now))
      = map fst rest @ [createCacheKey cfg]"
    by (simp add: ResponseCache_set_def Let_def r AList.update_keys flip: set_map)
  also have "\<dots> = drop 1 (map fst (cache c) @ [createCacheKey cfg])"
    by (simp add: r)
  finally show ?thesis
    unfolding one .
qed

lemma sets_keys_fifo:
  assumes "cache_ok c" "1 \<le> maxSize c" "int (length (cache c)) \<le> maxSize c"
    and "distinct (map (\<lambda>p. createCacheKey (fst p)) ops)"
    and "set (map (\<lambda>p. createCacheKey (fst p)) ops) \<inter> fst ` set (cache c) = {}"
  shows "map fst (cache (ResponseCache_sets c ops))
       = drop (length (cache c) + length ops - nat (maxSize c))
           (map fst (cache c) @ map (\<lambda>p. createCacheKey (fst p)) ops)"
  using assms
proof (induction ops arbitrary: c)
  case Nil
  then show ?case by simp
next
  case (Cons op ops)
  obtain cfg response ttlMs now where op: "op = (cfg, response, ttlMs, now)"
    by (cases op)
  let ?k = "createCacheKey cfg"
  let ?c = "ResponseCache_set c cfg response ttlMs now"
  let ?ks = "map (\<lambda>p. createCacheKey (fst p)) ops"
  have fresh: "?k \<notin> fst ` set (cache c)"
    using Cons.prems(5) by (auto simp: op)
  have keys: "map fst (cache ?c) = drop (length (cache c) + 1 - nat (maxSize c)) (map fst (cache c) @ [?k])"
    using set_keys_fresh [OF Cons.prems(1-3) fresh] .
  have ok: "cache_ok ?c" "1 \<le> maxSize ?c" "int (length (cache ?c)) \<le> maxSize ?c"
    using Cons.prems by (simp_all add: cache_ok_set size_set_bounded)
  have d: "distinct ?ks"
    using Cons.prems(4) by simp
  have "set (map fst (cache ?c)) \<subseteq> set (map fst (cache c) @ [?k])"
    unfolding keys by (rule set_drop_subset)
  then have "set (map fst (cache ?c)) \<subseteq> set (map fst (cache c)) \<union> {?k}"
    by simp
  moreover have "?k \<notin> set ?ks"
    using Cons.prems(4) by (simp add: op)
  ultimately have disj: "set ?ks \<inter> fst ` set (cache ?c) = {}"
    using Cons.prems(5) by (auto simp: op simp flip: set_map)
  have "map fst (cache (ResponseCache_sets ?c ops))
      = drop (length (cache ?c) + length ops - nat (maxSize c)) (map fst (cache ?c) @ ?ks)"
    using Cons.IH [OF ok d disj] by simp
  also have "\<dots> = drop (length (cache c) + length (op # ops) - nat (maxSize c))
                    (map fst (cache c) @ map (\<lambda>p. createCacheKey (fst p)) (op # ops))"
  proof (cases "int (length (cache c)) < maxSize c")
    case True
    then have z: "length (cache c) + 1 - nat (maxSize c) = 0" by linarith
    have k': "map fst (cache ?c) = map fst (cache c) @ [?k]"
      using keys unfolding z by simp
    have l': "length (cache ?c) = Suc (length (cache c))"
      using arg_cong [OF k', of length] by simp
    show ?thesis
      by (simp add: k' l' op)
  next
    case False
    then have full: "length (cache c) = nat (maxSize c)"
      using Cons.prems(3) by linarith
    then have one: "length (cache c) + 1 - nat (maxSize c) = 1" by simp
    have ne: "cache c \<noteq> []"
      using full Cons.prems(2) by auto
    have k': "map fst (cache ?c) = tl (map fst (cache c)) @ [?k]"
      using keys ne unfolding one by (cases "cache c") simp_all
    have l': "length (cache ?c) = length (cache c)"
      using arg_cong [OF k', of length] ne by (cases "cache c") simp_all
    have "drop (length (cache ?c) + length ops - nat (maxSize c)) (map fst (cache ?c) @ ?ks)
        = drop (length ops) (tl (map fst (cache c)) @ ?k # ?ks)"
      by (simp add: k' l' full)
    also have "\<dots> = drop (Suc (length ops)) (map fst (cache c) @ ?k # ?ks)"
      using ne by (cases "cache c") simp_all
    finally show ?thesis
      by (simp add: full op)
  qed
  finally show ?case
    by (simp add: op)
qed

text \<open>
  C2, as stated, at a TTL override of 0: an entry stored at time 0 with \<open>ttlMs = 0\<close> and
  read at time 1 is older than 0 milliseconds, and \<open>get\<close> returns it as a hit, the default
  TTL being 300000.
\<close>

theorem ResponseCache_get_zero_ttl_counterexample:
  "fst (ResponseCache_get
         (ResponseCache_set (new_ResponseCache 300000 1000) example_config example_response (Some 0) 0)
         example_config 1)
     = Some \<lparr>data = 7, timestamp = 0, etag = None, lastModified = None, expires = Some 0\<rparr>
   \<and> (1 :: int) - 0 > 0"
  by (simp add: ResponseCache_get_def ResponseCache_set_def new_ResponseCache_def evictOldest_def
      entryTtl_def example_response_def Let_def)

text \<open>
  C2, amended: for an entry in the cache, \<open>get\<close> misses iff \<open>now - timestamp\<close> is strictly
  greater than the effective TTL, which is the TTL given to \<open>set\<close> when one was given and
  is not 0, and the default TTL otherwise. On such a miss the entry is deleted; a hit
  returns the entry and leaves the cache as it is. An entry written by \<open>set\<close> at \<open>t0\<close>
  carries that time and that TTL.
\<close>

theorem ResponseCache_get_expiry:
  assumes "map_of (cache c) (createCacheKey cfg) = Some entry"
  shows "(fst (ResponseCache_get c cfg now) = None \<longleftrightarrow>
            now - timestamp entry
              > (case expires entry of
                   None \<Rightarrow> defaultTtl c
                 | Some t \<Rightarrow> if t = 0 then defaultTtl c else t))
       \<and> (fst (ResponseCache_get c cfg now) = None \<longrightarrow>
            cache (snd (ResponseCache_get c cfg now)) = AList.delete (createCacheKey cfg) (cache c)
            \<and> map_of (cache (snd (ResponseCache_get c cfg now))) (createCacheKey cfg) = None)
       \<and> (fst (ResponseCache_get c cfg now) \<noteq> None \<longrightarrow>
            ResponseCache_get c cfg now = (Some entry, c))
       \<and> map_of (cache (ResponseCache_set c cfg response ttlMs t0)) (createCacheKey cfg)
            = Some \<lparr>data = resp_data response, timestamp = t0,
                    etag = resp_headers response ''etag'',
                    lastModified = resp_headers response ''last-modified'',
                    expires = ttlMs\<rparr>
       \<and> (fst (ResponseCache_get (ResponseCache_set c cfg response ttlMs t0) cfg t1) = None \<longleftrightarrow>
            t1 - t0 > (case ttlMs of
                         None \<Rightarrow> defaultTtl c
                       | Some t \<Rightarrow> if t = 0 then defaultTtl c else t))"
proof -
  have stored: "map_of (cache (ResponseCache_set c cfg response ttlMs t0)) (createCacheKey cfg)
            = Some \<lparr>data = resp_data response, timestamp = t0,
                    etag = resp_headers response ''etag'',
                    lastModified = resp_headers response ''last-modified'',
                    expires = ttlMs\<rparr>"
    by (simp add: ResponseCache_set_def Let_def AList.update_conv')
  have miss: "fst (ResponseCache_get c' cfg t) = None \<longleftrightarrow>
            t - timestamp e > (case expires e of
                   None \<Rightarrow> defaultTtl c'
                 | Some x \<Rightarrow> if x = 0 then defaultTtl c' else x)"
    if "map_of (cache c') (createCacheKey cfg) = Some e" for c' :: "'a ResponseCache" and e t
    using that by (simp add: ResponseCache_get_def Let_def entryTtl_def)
  have del: "fst (ResponseCache_get c cfg now) = None \<longrightarrow>
            cache (snd (ResponseCache_get c cfg now)) = AList.delete (createCacheKey cfg) (cache c)
            \<and> map_of (cache (snd (ResponseCache_get c cfg now))) (createCacheKey cfg) = None"
    using assms by (simp add: ResponseCache_get_def Let_def AList.delete_conv')
  have hit: "fst (ResponseCache_get c cfg now) \<noteq> None \<longrightarrow>
            ResponseCache_get c cfg now = (Some entry, c)"
    using assms by (simp add: ResponseCache_get_def Let_def)
  have m1: "fst (ResponseCache_get c cfg now) = None \<longleftrightarrow>
            now - timestamp entry
              > (case expires entry of
                   None \<Rightarrow> defaultTtl c
                 | Some t \<Rightarrow> if t = 0 then defaultTtl c else t)"
    using miss [OF assms, of now] .
  have m2: "fst (ResponseCache_get (ResponseCache_set c cfg response ttlMs t0) cfg t1) = None \<longleftrightarrow>
            t1 - t0 > (case ttlMs of
                         None \<Rightarrow> defaultTtl c
                       | Some t \<Rightarrow> if t = 0 then defaultTtl c else t)"
    using miss [OF stored, of t1] by (cases ttlMs) simp_all
  show ?thesis
    using m1 del hit stored m2 by blast
qed

theorem ResponseCache_get_expiry_witness:
  "map_of (cache (ResponseCache_set (new_ResponseCache 300000 1000) example_config example_response
                    (Some 60000) 0)) (createCacheKey example_config)
     = Some \<lparr>data = 7, timestamp = 0, etag = None, lastModified = None, expires = Some 60000\<rparr>
   \<and> fst (ResponseCache_get
            (ResponseCache_set (new_ResponseCache 300000 1000) example_config example_response
               (Some 60000) 0) example_config 60001) = None
   \<and> fst (ResponseCache_get
            (ResponseCache_set (new_ResponseCache 300000 1000) example_config example_response
               (Some 60000) 0) example_config 60000) \<noteq> None"
proof -
  let ?c = "ResponseCache_set (new_ResponseCache 300000 1000) example_config example_response
               (Some 60000) 0"
  let ?e = "\<lparr>data = 7 :: nat, timestamp = 0, etag = None, lastModified = None, expires = Some 60000\<rparr>"
  have h: "map_of (cache ?c) (createCacheKey example_config) = Some ?e"
    by (simp add: ResponseCache_set_def Let_def AList.update_conv' example_response_def)
  from ResponseCache_get_expiry [OF h, of 60001] ResponseCache_get_expiry [OF h, of 60000] h
  show ?thesis
    by simp
qed

text \<open>
  C3, as stated, at \<open>maxSize = 0\<close>: the empty cache has at least \<open>maxSize\<close> entries, one
  \<open>set\<close> evicts nothing, and the cache then holds one entry, more than \<open>maxSize\<close>.
\<close>

theorem ResponseCache_set_zero_maxSize_counterexample:
  "int (ResponseCache_size
          (ResponseCache_sets (new_ResponseCache 300000 0) [(example_config, example_response, None, 0)]))
     > maxSize (ResponseCache_sets (new_ResponseCache 300000 0)
                  [(example_config, example_response, None, 0)])
   \<and> int (ResponseCache_size (new_ResponseCache 300000 0 :: nat ResponseCache))
        \<ge> maxSize (new_ResponseCache 300000 0 :: nat ResponseCache)
   \<and> ResponseCache_size
        (ResponseCache_set (new_ResponseCache 300000 0) example_config example_response None 0) = 1"
  by (simp add: ResponseCache_size_def ResponseCache_set_def new_ResponseCache_def evictOldest_def
      Let_def)

text \<open>
  C3, amended: for \<open>maxSize\<close> of at least 1 and every run of \<open>set\<close> calls on a new cache,
  the cache never holds more than \<open>maxSize\<close> entries. A \<open>set\<close> on a full cache removes
  exactly the first entry of the map, the one whose key was inserted earliest, and then
  writes the new entry; a \<open>set\<close> on a cache that is not full removes nothing. After a run
  of \<open>set\<close> calls with distinct keys the keys in the cache are the last \<open>maxSize\<close> keys of
  the run, in the order of insertion. A hit of \<open>get\<close> does not change the cache, so reading
  an entry does not save it from eviction.
\<close>

theorem ResponseCache_set_bounded_fifo:
  assumes m: "1 \<le> maxSz"
    and c: "c = ResponseCache_sets (new_ResponseCache ttl maxSz) ops"
    and entry: "entry = \<lparr>data = resp_data response, timestamp = now,
                        etag = resp_headers response ''etag'',
                        lastModified = resp_headers response ''last-modified'',
                        expires = ttlMs\<rparr>"
  shows "int (ResponseCache_size c) \<le> maxSz
       \<and> (int (ResponseCache_size c) \<ge> maxSz \<longrightarrow>
            (\<exists>k e rest. cache c = (k, e) # rest \<and> k \<notin> fst ` set rest
               \<and> cache (ResponseCache_set c cfg response ttlMs now)
                    = AList.update (createCacheKey cfg) entry rest))
       \<and> (int (ResponseCache_size c) < maxSz \<longrightarrow>
            cache (ResponseCache_set c cfg response ttlMs now)
              = AList.update (createCacheKey cfg) entry (cache c))
       \<and> (distinct (map (\<lambda>p. createCacheKey (fst p)) ops) \<longrightarrow>
            map fst (cache c)
              = drop (length ops - nat maxSz) (map (\<lambda>p. createCacheKey (fst p)) ops))
       \<and> (fst (ResponseCache_get c cfg now) \<noteq> None \<longrightarrow> snd (ResponseCache_get c cfg now) = c)"
proof -
  let ?n = "new_ResponseCache ttl maxSz :: 'a ResponseCache"
  have n: "cache_ok ?n" "1 \<le> maxSize ?n" "int (length (cache ?n)) \<le> maxSize ?n"
    using m by (simp_all add: new_ResponseCache_def cache_ok_def)
  from sets_invariant [OF n, of ops]
  have inv: "cache_ok c" "maxSize c = maxSz" "int (length (cache c)) \<le> maxSz"
    by (simp_all add: c new_ResponseCache_def)
  have bound: "int (ResponseCache_size c) \<le> maxSz"
    using inv(3) by (simp add: ResponseCache_size_def)
  have full: "int (ResponseCache_size c) \<ge> maxSz \<longrightarrow>
            (\<exists>k e rest. cache c = (k, e) # rest \<and> k \<notin> fst ` set rest
               \<and> cache (ResponseCache_set c cfg response ttlMs now)
                    = AList.update (createCacheKey cfg) entry rest)"
  proof
    assume f: "int (ResponseCache_size c) \<ge> maxSz"
    then have "cache c \<noteq> []"
      using m by (auto simp: ResponseCache_size_def)
    with evictOldest_cases [OF inv(1)] f inv(2)
    obtain k e rest where r: "cache c = (k, e) # rest" "k \<notin> fst ` set rest" "evictOldest c = rest"
      by (auto simp: ResponseCache_size_def)
    have "cache (ResponseCache_set c cfg response ttlMs now)
        = AList.update (createCacheKey cfg) entry rest"
      by (simp add: ResponseCache_set_def Let_def r(3) entry)
    with r show "\<exists>k e rest. cache c = (k, e) # rest \<and> k \<notin> fst ` set rest
               \<and> cache (ResponseCache_set c cfg response ttlMs now)
                    = AList.update (createCacheKey cfg) entry rest"
      by blast
  qed
  have room: "int (ResponseCache_size c) < maxSz \<longrightarrow>
            cache (ResponseCache_set c cfg response ttlMs now)
              = AList.update (createCacheKey cfg) entry (cache c)"
    using evictOldest_cases [OF inv(1)] inv(2)
    by (simp add: ResponseCache_set_def Let_def entry ResponseCache_size_def)
  have fifo: "distinct (map (\<lambda>p. createCacheKey (fst p)) ops) \<longrightarrow>
            map fst (cache c)
              = drop (length ops - nat maxSz) (map (\<lambda>p. createCacheKey (fst p)) ops)"
  proof
    assume d: "distinct (map (\<lambda>p. createCacheKey (fst p)) ops)"
    have e: "set (map (\<lambda>p. createCacheKey (fst p)) ops) \<inter> fst ` set (cache ?n) = {}"
      by (simp add: new_ResponseCache_def)
    from sets_keys_fifo [OF n d e]
    show "map fst (cache c)
              = drop (length ops - nat maxSz) (map (\<lambda>p. createCacheKey (fst p)) ops)"
      by (simp add: c new_ResponseCache_def)
  qed
  have hit: "fst (ResponseCache_get c cfg now) \<noteq> None \<longrightarrow> snd (ResponseCache_get c cfg now) = c"
    by (simp add: ResponseCache_get_def Let_def split: option.splits)
  show ?thesis
    using bound full room fifo hit by blast
qed


theorem ResponseCache_set_bounded_fifo_witness:
  "1 \<le> (2 :: int)
   \<and> distinct (map (\<lambda>p. createCacheKey (fst p)) example_sets)
   \<and> int (ResponseCache_size (ResponseCache_sets (new_ResponseCache 300000 2) example_sets)) \<ge> 2
   \<and> fst (ResponseCache_get (ResponseCache_sets (new_ResponseCache 300000 2) example_sets)
             example_config2 5) \<noteq> None
   \<and> int (ResponseCache_size (ResponseCache_sets (new_ResponseCache 300000 2) [] :: nat ResponseCache)) < 2
   \<and> map fst (cache (ResponseCache_sets (new_ResponseCache 300000 2) example_sets))
        = drop (length example_sets - nat 2) (map (\<lambda>p. createCacheKey (fst p)) example_sets)
   \<and> snd (ResponseCache_get (ResponseCache_sets (new_ResponseCache 300000 2) example_sets)
             example_config2 5)
        = ResponseCache_sets (new_ResponseCache 300000 2) example_sets
   \<and> cache (ResponseCache_set (ResponseCache_sets (new_ResponseCache 300000 2) [])
               example_config2 example_response None 5)
        = AList.update (createCacheKey example_config2)
            \<lparr>data = resp_data example_response, timestamp = 5,
             etag = resp_headers example_response ''etag'',
             lastModified = resp_headers example_response ''last-modified'',
             expires = None\<rparr>
            (cache (ResponseCache_sets (new_ResponseCache 300000 2) []))"
proof -
  have h1: "1 \<le> (2 :: int)"
    by simp
  have d: "distinct (map (\<lambda>p. createCacheKey (fst p)) example_sets)"
    by code_simp
  have full: "int (ResponseCache_size (ResponseCache_sets (new_ResponseCache 300000 2) example_sets)) \<ge> 2"
    by code_simp
  have hit: "fst (ResponseCache_get (ResponseCache_sets (new_ResponseCache 300000 2) example_sets)
             example_config2 5) \<noteq> None"
    by code_simp
  have room: "int (ResponseCache_size (ResponseCache_sets (new_ResponseCache 300000 2) [] :: nat ResponseCache)) < 2"
    by (simp add: ResponseCache_size_def new_ResponseCache_def)
  note full_run = ResponseCache_set_bounded_fifo
    [where ttl = 300000 and ops = example_sets and response = example_response and now = 5
       and ttlMs = None and cfg = example_config2, OF h1 refl refl]
  note empty_run = ResponseCache_set_bounded_fifo
    [where ttl = 300000 and ops = "[]" and response = example_response and now = 5
       and ttlMs = None and cfg = example_config2, OF h1 refl refl]
  from full_run empty_run h1 d full hit room show ?thesis
    by blast
qed


section \<open>Properties of the request batcher\<close>

subsection \<open>The steps of the batcher, written out\<close>

lemma executeBatch_None: "batches b k = None \<Longrightarrow> executeBatch b k ex = (b, [])"
  by (simp add: executeBatch_def)

lemma executeBatch_Some:
  assumes "batches b k = Some bt" "timers b (timeout bt) = None"
  shows "executeBatch b k ex =
     (flush_state b k bt (ex (map config (requests bt))),
      flush_effects k bt (ex (map config (requests bt))))"
proof -
  have t: "(timers b)(timeout bt := None) = timers b"
    using assms(2) by (simp add: fun_upd_idem)
  show ?thesis
    using assms(1)
    by (cases "ex (map config (requests bt))")
      (simp_all add: executeBatch_def Let_def flush_state_def flush_effects_def launched_def
        thrown_def t)
qed

lemma add_new_open:
  assumes "batches b (getBatchKey cfg) = None" "1 < maxBatchSize b"
  shows "add b cfg ex =
    (nextPromise b,
     b\<lparr>nextPromise := nextPromise b + 1,
       timers := (timers b)(nextTimer b \<mapsto> (getBatchKey cfg, ex)),
       nextTimer := nextTimer b + 1,
       batches := (batches b)(getBatchKey cfg \<mapsto>
          \<lparr>requests = [\<lparr>config = cfg, promise = nextPromise b\<rparr>], timeout = nextTimer b\<rparr>)\<rparr>,
     [])"
  using assms by (simp add: add_def Let_def)

lemma add_old_open:
  assumes "batches b (getBatchKey cfg) = Some bt" "int (length (requests bt)) + 1 < maxBatchSize b"
  shows "add b cfg ex =
    (nextPromise b,
     b\<lparr>nextPromise := nextPromise b + 1,
       batches := (batches b)(getBatchKey cfg \<mapsto>
          bt\<lparr>requests := requests bt @ [\<lparr>config = cfg, promise = nextPromise b\<rparr>]\<rparr>)\<rparr>,
     [])"
  using assms by (simp add: add_def Let_def)

lemma add_new_full:
  assumes "batches b (getBatchKey cfg) = None" "maxBatchSize b \<le> 1"
    and bt: "bt = \<lparr>requests = [\<lparr>config = cfg, promise = nextPromise b\<rparr>], timeout = nextTimer b\<rparr>"
  shows "add b cfg ex =
    (nextPromise b,
     flush_state (b\<lparr>nextPromise := nextPromise b + 1, nextTimer := nextTimer b + 1\<rparr>)
       (getBatchKey cfg) bt (ex [cfg]),
     flush_effects (getBatchKey cfg) bt (ex [cfg]))"
proof -
  let ?b = "b\<lparr>nextPromise := nextPromise b + 1,
       timers := (timers b)(nextTimer b := None),
       nextTimer := nextTimer b + 1,
       batches := (batches b)(getBatchKey cfg \<mapsto> bt)\<rparr>"
  have "add b cfg ex = (nextPromise b, executeBatch ?b (getBatchKey cfg) ex)"
    using assms by (cases b) (simp add: add_def Let_def)
  moreover have "executeBatch ?b (getBatchKey cfg) ex =
     (flush_state ?b (getBatchKey cfg) bt (ex (map config (requests bt))),
      flush_effects (getBatchKey cfg) bt (ex (map config (requests bt))))"
    by (rule executeBatch_Some) (simp_all add: bt)
  moreover have "flush_state ?b (getBatchKey cfg) bt a
      = flush_state (b\<lparr>nextPromise := nextPromise b + 1, nextTimer := nextTimer b + 1\<rparr>)
          (getBatchKey cfg) bt a" for a
    by (cases "launched a"; cases b) (simp_all add: flush_state_def bt)
  ultimately show ?thesis
    by (simp add: bt)
qed

lemma add_old_full:
  assumes "batches b (getBatchKey cfg) = Some bt0"
    and "maxBatchSize b \<le> int (length (requests bt0)) + 1"
    and bt: "bt = bt0\<lparr>requests := requests bt0 @ [\<lparr>config = cfg, promise = nextPromise b\<rparr>]\<rparr>"
  shows "add b cfg ex =
    (nextPromise b,
     flush_state (b\<lparr>nextPromise := nextPromise b + 1\<rparr>) (getBatchKey cfg) bt
       (ex (map config (requests bt0) @ [cfg])),
     flush_effects (getBatchKey cfg) bt (ex (map config (requests bt0) @ [cfg])))"
proof -
  let ?b = "b\<lparr>nextPromise := nextPromise b + 1,
       timers := (timers b)(timeout bt0 := None),
       batches := (batches b)(getBatchKey cfg \<mapsto> bt)\<rparr>"
  have "add b cfg ex = (nextPromise b, executeBatch ?b (getBatchKey cfg) ex)"
    using assms by (cases b) (simp add: add_def Let_def)
  moreover have "executeBatch ?b (getBatchKey cfg) ex =
     (flush_state ?b (getBatchKey cfg) bt (ex (map config (requests bt))),
      flush_effects (getBatchKey cfg) bt (ex (map config (requests bt))))"
    by (rule executeBatch_Some) (simp_all add: bt)
  moreover have "flush_state ?b (getBatchKey cfg) bt a
      = flush_state (b\<lparr>nextPromise := nextPromise b + 1\<rparr>) (getBatchKey cfg) bt a" for a
    by (cases "launched a"; cases b) (simp_all add: flush_state_def bt)
  ultimately show ?thesis
    by (simp add: bt)
qed

lemma fire_unarmed: "timers b h = None \<Longrightarrow> fire b h = (b, [])"
  by (simp add: fire_def)

lemma fire_armed:
  assumes "timers b h = Some (k, ex)" "batches b k = Some bt" "timeout bt = h"
  shows "fire b h =
     (flush_state b k bt (ex (map config (requests bt))),
      flush_effects k bt (ex (map config (requests bt))))"
proof -
  let ?b = "b\<lparr>timers := (timers b)(h := None)\<rparr>"
  have "fire b h = executeBatch ?b k ex"
    using assms(1) by (simp add: fire_def)
  moreover have "executeBatch ?b k ex =
     (flush_state ?b k bt (ex (map config (requests bt))),
      flush_effects k bt (ex (map config (requests bt))))"
    by (rule executeBatch_Some) (simp_all add: assms)
  moreover have "flush_state ?b k bt a = flush_state b k bt a" for a
    by (cases "launched a"; cases b) (simp_all add: flush_state_def assms(3))
  ultimately show ?thesis
    by simp
qed

lemma resumed_none: "inflight b h = None \<Longrightarrow> executeBatch_resumed b h = (b, [])"
  by (simp add: executeBatch_resumed_def)

lemma resumed_some:
  "inflight b h = Some (bt, res) \<Longrightarrow>
   executeBatch_resumed b h =
     (b\<lparr>inflight := (inflight b)(h := None)\<rparr>,
      case res of Inr results \<Rightarrow> resolveAll bt results | Inl error \<Rightarrow> rejectAll bt error)"
  by (simp add: executeBatch_resumed_def)

lemma ordered_append: "ordered xs \<Longrightarrow> ordered ys \<Longrightarrow> ordered (xs @ ys)"
  by (induction xs rule: ordered.induct) simp_all

lemma ordered_nth:
  "ordered tr \<Longrightarrow> i < length tr \<Longrightarrow> tr ! i = Invoked h configs \<Longrightarrow>
   0 < i \<and> (\<exists>k. tr ! (i - 1) = Removed k h)"
proof (induction tr arbitrary: i rule: ordered.induct)
  case (2 k h0 h' cfgs rest)
  show ?case
  proof (cases i)
    case 0
    with 2 show ?thesis by simp
  next
    case (Suc j)
    show ?thesis
    proof (cases j)
      case 0
      with 2 Suc show ?thesis by simp
    next
      case (Suc l)
      with 2 \<open>i = Suc j\<close> have "0 < l \<and> (\<exists>k. rest ! (l - 1) = Removed k h)"
        by simp
      with Suc \<open>i = Suc j\<close> show ?thesis
        by (cases l) simp_all
    qed
  qed
next
  case (3 p out rest)
  show ?case
  proof (cases i)
    case 0
    with 3 show ?thesis by simp
  next
    case (Suc j)
    with 3 have "0 < j \<and> (\<exists>k. rest ! (j - 1) = Removed k h)"
      by simp
    with Suc show ?thesis
      by (cases j) simp_all
  qed
qed simp_all

lemma invoked_append: "invoked_handles (xs @ ys) = invoked_handles xs @ invoked_handles ys"
  by (induction xs rule: invoked_handles.induct) simp_all

lemma settled_only:
  "\<forall>x \<in> set xs. \<exists>p out. x = Settled p out \<Longrightarrow> invoked_handles xs = [] \<and> ordered xs"
  by (induction xs) auto

lemma rejectAll_settled: "\<forall>x \<in> set (rejectAll bt e). \<exists>p out. x = Settled p out"
  by (auto simp: rejectAll_def)

lemma resolveAll_settled: "\<forall>x \<in> set (resolveAll bt rs). \<exists>p out. x = Settled p out"
  by (auto simp: resolveAll_def)

lemma thrown_settled: "\<forall>x \<in> set (thrown bt a). \<exists>p out. x = Settled p out"
  by (cases a) (auto simp: thrown_def rejectAll_def)

lemma flush_effects_shape:
  "invoked_handles (flush_effects k bt a) = [timeout bt] \<and> ordered (flush_effects k bt a)"
  using settled_only [OF thrown_settled [of bt a]]
  by (simp add: flush_effects_def)

lemma flush_state_simps [simp]:
  "batches (flush_state b k bt a) = (batches b)(k := None)"
  "timers (flush_state b k bt a) = (timers b)(timeout bt := None)"
  "nextTimer (flush_state b k bt a) = nextTimer b"
  "nextPromise (flush_state b k bt a) = nextPromise b"
  "maxBatchSize (flush_state b k bt a) = maxBatchSize b"
  "inflight (flush_state b k bt a)
     = (case launched a of None \<Rightarrow> inflight b | Some res \<Rightarrow> (inflight b)(timeout bt \<mapsto> (bt, res)))"
  by (simp_all add: flush_state_def)

lemma armed_below:
  "batcher_ok b \<Longrightarrow> batches b k = Some bt \<Longrightarrow> timeout bt \<in> dom (timers b) \<and> timeout bt < nextTimer b"
  unfolding batcher_ok_def by fastforce

lemma ok_flush_in_map:
  assumes ok: "batcher_ok b" and bt: "batches b k = Some bt0" and h: "timeout bt0 = timeout bt"
  shows "batcher_ok (flush_state b k bt a)"
proof -
  from ok bt obtain ex where t: "timers b (timeout bt0) = Some (k, ex)"
    unfolding batcher_ok_def by blast
  have other: "timeout bt' \<noteq> timeout bt0" if "batches b k' = Some bt'" "k' \<noteq> k" for k' bt'
  proof
    assume e: "timeout bt' = timeout bt0"
    from ok that(1) obtain ex' where "timers b (timeout bt') = Some (k', ex')"
      unfolding batcher_ok_def by blast
    with t e that(2) show False by simp
  qed
  have same_key: "k' = k" if "timers b (timeout bt0) = Some (k', ex')" for k' ex'
    using that t by simp
  show ?thesis
    using ok bt other same_key unfolding batcher_ok_def
    by (auto simp: h [symmetric] split: if_splits; fastforce)
qed

lemma ok_flush_fresh:
  assumes ok: "batcher_ok b" and bt: "batches b k = None" and h: "timeout bt \<notin> dom (timers b)"
  shows "batcher_ok (flush_state b k bt a)"
proof -
  have "(batches b)(k := None) = batches b" "(timers b)(timeout bt := None) = timers b"
    using bt h by (auto simp: fun_upd_idem)
  then show ?thesis
    using ok unfolding batcher_ok_def by simp
qed

lemma ok_after_push:
  assumes ok: "batcher_ok b" and bt: "batches b k = Some bt"
  shows "batcher_ok (b\<lparr>nextPromise := p, batches := (batches b)(k \<mapsto> bt\<lparr>requests := rs\<rparr>)\<rparr>)"
  using ok bt unfolding batcher_ok_def
  by (auto split: if_splits; fastforce)

lemma ok_after_open:
  assumes ok: "batcher_ok b" and bt: "batches b k = None"
  shows "batcher_ok (b\<lparr>nextPromise := p, timers := (timers b)(nextTimer b \<mapsto> (k, ex)),
                        nextTimer := nextTimer b + 1,
                        batches := (batches b)(k \<mapsto> \<lparr>requests = rs, timeout = nextTimer b\<rparr>)\<rparr>)"
proof -
  have fresh: "nextTimer b \<notin> dom (timers b)"
    using ok unfolding batcher_ok_def by fastforce
  have nh: "timeout bt' \<noteq> nextTimer b" if "batches b k' = Some bt'" for k' bt'
    using ok that fresh unfolding batcher_ok_def by fastforce
  show ?thesis
    using ok bt fresh nh unfolding batcher_ok_def
    by (auto split: if_splits simp: less_Suc_eq; fastforce)
qed

lemma ok_bump:
  "batcher_ok b \<Longrightarrow> batcher_ok (b\<lparr>nextPromise := p, nextTimer := nextTimer b + 1\<rparr>)"
  unfolding batcher_ok_def by (auto simp: less_Suc_eq)

lemma ok_promise: "batcher_ok b \<Longrightarrow> batcher_ok (b\<lparr>nextPromise := p\<rparr>)"
  unfolding batcher_ok_def by simp

lemma ok_inflight: "batcher_ok b \<Longrightarrow> batcher_ok (b\<lparr>inflight := F\<rparr>)"
  unfolding batcher_ok_def by simp

lemma batcher_ok_new: "batcher_ok (new_RequestBatcher w m)"
  by (simp add: batcher_ok_def new_RequestBatcher_def)

lemma group_ok_mono: "group_ok adds k bt \<Longrightarrow> group_ok (adds @ xs) k bt"
  by (auto simp: group_ok_def nth_append)

lemma group_ok_hd: "group_ok adds k bt \<Longrightarrow> promise (hd (requests bt)) < length adds"
  by (auto simp: group_ok_def)

lemma group_ok_last: "group_ok adds k bt \<Longrightarrow> promise (last (requests bt)) < length adds"
  by (auto simp: group_ok_def)

lemma first_executor_mono:
  "group_ok adds k bt \<Longrightarrow> first_executor (adds @ xs) bt = first_executor adds bt"
  using group_ok_hd [of adds k bt] by (simp add: first_executor_def nth_append)

lemma used_executor_mono:
  "group_ok adds k bt \<Longrightarrow> used_executor (adds @ xs) m bt = used_executor adds m bt"
  using group_ok_hd [of adds k bt] group_ok_last [of adds k bt]
  by (simp add: used_executor_def nth_append)

lemma entry_ok_mono:
  "entry_ok adds D m h bt res \<Longrightarrow> D \<subseteq> D' \<Longrightarrow> entry_ok (adds @ xs) D' m h bt res"
  using group_ok_mono used_executor_mono
  by (fastforce simp: entry_ok_def)

lemma group_ok_single:
  "group_ok (adds @ [(cfg, ex)]) (getBatchKey cfg)
     \<lparr>requests = [\<lparr>config = cfg, promise = length adds\<rparr>], timeout = h\<rparr>"
  by (simp add: group_ok_def)

lemma group_ok_push:
  assumes "group_ok adds (getBatchKey cfg) bt"
  shows "group_ok (adds @ [(cfg, ex)]) (getBatchKey cfg)
     (bt\<lparr>requests := requests bt @ [\<lparr>config = cfg, promise = length adds\<rparr>]\<rparr>)"
  using assms by (auto simp: group_ok_def sorted_wrt_append nth_append)

lemma dead_flush_state:
  "dead (flush_state b k bt a) = {h. h < nextTimer b \<and> (h = timeout bt \<or> h \<notin> dom (timers b))}"
  by (auto simp: dead_def)

lemma inflight_ok_flush:
  assumes old: "\<forall>h bt res. inflight b h = Some (bt, res) \<longrightarrow> entry_ok A D m h bt res"
    and new: "\<forall>res. launched a = Some res \<longrightarrow> entry_ok A D m (timeout bt0) bt0 res"
    and D: "D = dead (flush_state b k bt0 a)" and m: "m = maxBatchSize b"
  shows "inflight_ok A (flush_state b k bt0 a)"
  using old new unfolding inflight_ok_def D m
  by (cases "launched a") (auto split: if_splits)

lemma timer_key:
  assumes "batcher_ok b" "timers b h = Some (k, ex)"
  shows "\<exists>bt. batches b k = Some bt \<and> timeout bt = h"
  using assms unfolding batcher_ok_def by blast

lemma hist_add_new_open:
  assumes h: "hist_ok adds b" and none: "batches b (getBatchKey cfg) = None"
    and b': "b' = b\<lparr>nextPromise := nextPromise b + 1,
       timers := (timers b)(nextTimer b \<mapsto> (getBatchKey cfg, ex)),
       nextTimer := nextTimer b + 1,
       batches := (batches b)(getBatchKey cfg \<mapsto>
          \<lparr>requests = [\<lparr>config = cfg, promise = nextPromise b\<rparr>], timeout = nextTimer b\<rparr>)\<rparr>"
    and m: "1 < maxBatchSize b"
  shows "hist_ok (adds @ [(cfg, ex)]) b'"
proof -
  let ?k = "getBatchKey cfg"
  let ?A = "adds @ [(cfg, ex)]"
  from h have ok: "batcher_ok b" and p: "nextPromise b = length adds"
    and g: "groups_ok adds b" and t: "timers_ok adds b" and i: "inflight_ok adds b"
    by (simp_all add: hist_ok_def)
  have ok': "batcher_ok b'"
    unfolding b' by (rule ok_after_open [OF ok none])
  have fresh: "nextTimer b \<notin> dom (timers b)"
    using ok unfolding batcher_ok_def by fastforce
  have g': "groups_ok ?A b'"
    unfolding groups_ok_def
  proof (intro allI impI)
    fix k bt assume bt: "batches b' k = Some bt"
    show "group_ok ?A k bt \<and> int (length (requests bt)) < maxBatchSize b'"
    proof (cases "k = ?k")
      case True
      with bt have "bt = \<lparr>requests = [\<lparr>config = cfg, promise = length adds\<rparr>], timeout = nextTimer b\<rparr>"
        by (simp add: b' p)
      with True m show ?thesis
        using group_ok_single [of adds cfg ex "nextTimer b"] by (simp add: b')
    next
      case False
      with bt have "batches b k = Some bt" by (simp add: b')
      with g show ?thesis
        by (auto simp: groups_ok_def b' intro: group_ok_mono)
    qed
  qed
  have t': "timers_ok ?A b'"
    unfolding timers_ok_def
  proof (intro allI impI)
    fix h k ex' bt
    assume tm: "timers b' h = Some (k, ex')" and bt: "batches b' k = Some bt"
    show "ex' = first_executor ?A bt"
    proof (cases "h = nextTimer b")
      case True
      with tm have "k = ?k" "ex' = ex" by (simp_all add: b')
      moreover from this bt
      have "bt = \<lparr>requests = [\<lparr>config = cfg, promise = length adds\<rparr>], timeout = nextTimer b\<rparr>"
        by (simp add: b' p)
      ultimately show ?thesis
        by (simp add: first_executor_def)
    next
      case False
      with tm have old: "timers b h = Some (k, ex')" by (simp add: b')
      from timer_key [OF ok old] none have "k \<noteq> ?k" by auto
      with bt have bt0: "batches b k = Some bt" by (simp add: b')
      from t old bt0 have "ex' = first_executor adds bt"
        by (auto simp: timers_ok_def)
      moreover from g bt0 have "group_ok adds k bt"
        by (simp add: groups_ok_def)
      ultimately show ?thesis
        by (simp add: first_executor_mono)
    qed
  qed
  have d: "dead b \<subseteq> dead b'"
    using fresh by (auto simp: dead_def b')
  have i': "inflight_ok ?A b'"
    unfolding inflight_ok_def
  proof (intro allI impI)
    fix h bt res assume "inflight b' h = Some (bt, res)"
    then have "inflight b h = Some (bt, res)" by (simp add: b')
    with i have "entry_ok adds (dead b) (maxBatchSize b) h bt res"
      by (simp add: inflight_ok_def)
    from entry_ok_mono [OF this d] show "entry_ok ?A (dead b') (maxBatchSize b') h bt res"
      by (simp add: b')
  qed
  show ?thesis
    using ok' g' t' i' by (simp add: hist_ok_def) (simp add: b' p)
qed

lemma hist_add_old_open:
  assumes h: "hist_ok adds b" and some: "batches b (getBatchKey cfg) = Some bt0"
    and b': "b' = b\<lparr>nextPromise := nextPromise b + 1,
       batches := (batches b)(getBatchKey cfg \<mapsto>
          bt0\<lparr>requests := requests bt0 @ [\<lparr>config = cfg, promise = nextPromise b\<rparr>]\<rparr>)\<rparr>"
    and m: "int (length (requests bt0)) + 1 < maxBatchSize b"
  shows "hist_ok (adds @ [(cfg, ex)]) b'"
proof -
  let ?k = "getBatchKey cfg"
  let ?A = "adds @ [(cfg, ex)]"
  let ?bt = "bt0\<lparr>requests := requests bt0 @ [\<lparr>config = cfg, promise = length adds\<rparr>]\<rparr>"
  from h have ok: "batcher_ok b" and p: "nextPromise b = length adds"
    and g: "groups_ok adds b" and t: "timers_ok adds b" and i: "inflight_ok adds b"
    by (simp_all add: hist_ok_def)
  have g0: "group_ok adds ?k bt0"
    using g some by (simp add: groups_ok_def)
  have ok': "batcher_ok b'"
    unfolding b' by (rule ok_after_push [OF ok some])
  have g': "groups_ok ?A b'"
    unfolding groups_ok_def
  proof (intro allI impI)
    fix k bt assume bt: "batches b' k = Some bt"
    show "group_ok ?A k bt \<and> int (length (requests bt)) < maxBatchSize b'"
    proof (cases "k = ?k")
      case True
      with bt have "bt = ?bt" by (simp add: b' p)
      with True m show ?thesis
        using group_ok_push [OF g0, of ex] by (simp add: b')
    next
      case False
      with bt have "batches b k = Some bt" by (simp add: b')
      with g show ?thesis
        by (auto simp: groups_ok_def b' intro: group_ok_mono)
    qed
  qed
  have t': "timers_ok ?A b'"
    unfolding timers_ok_def
  proof (intro allI impI)
    fix h k ex' bt
    assume tm: "timers b' h = Some (k, ex')" and bt: "batches b' k = Some bt"
    from tm have old: "timers b h = Some (k, ex')" by (simp add: b')
    show "ex' = first_executor ?A bt"
    proof (cases "k = ?k")
      case True
      with bt have e: "bt = ?bt" by (simp add: b' p)
      from t old some True have "ex' = first_executor adds bt0"
        by (auto simp: timers_ok_def)
      also have "\<dots> = first_executor ?A bt0"
        by (simp add: first_executor_mono [OF g0])
      also have "\<dots> = first_executor ?A bt"
        using g0 by (simp add: e first_executor_def group_ok_def)
      finally show ?thesis .
    next
      case False
      with bt have bt0: "batches b k = Some bt" by (simp add: b')
      from t old bt0 have "ex' = first_executor adds bt"
        by (auto simp: timers_ok_def)
      moreover from g bt0 have "group_ok adds k bt"
        by (simp add: groups_ok_def)
      ultimately show ?thesis
        by (simp add: first_executor_mono)
    qed
  qed
  have d: "dead b \<subseteq> dead b'"
    by (auto simp: dead_def b')
  have i': "inflight_ok ?A b'"
    unfolding inflight_ok_def
  proof (intro allI impI)
    fix h bt res assume "inflight b' h = Some (bt, res)"
    then have "inflight b h = Some (bt, res)" by (simp add: b')
    with i have "entry_ok adds (dead b) (maxBatchSize b) h bt res"
      by (simp add: inflight_ok_def)
    from entry_ok_mono [OF this d] show "entry_ok ?A (dead b') (maxBatchSize b') h bt res"
      by (simp add: b')
  qed
  show ?thesis
    using ok' g' t' i' by (simp add: hist_ok_def) (simp add: b' p)
qed

text \<open>A flush from a state whose groups, timers and suspended executions are in order.\<close>

lemma hist_flush:
  assumes ok: "batcher_ok b0" and ok': "batcher_ok (flush_state b0 k bt a)"
    and p: "nextPromise b0 = length A"
    and g: "\<forall>k' bt'. k' \<noteq> k \<longrightarrow> batches b0 k' = Some bt' \<longrightarrow>
              group_ok A k' bt' \<and> int (length (requests bt')) < maxBatchSize b0"
    and t: "\<forall>h k' ex bt'. k' \<noteq> k \<longrightarrow> timers b0 h = Some (k', ex) \<longrightarrow> batches b0 k' = Some bt' \<longrightarrow>
              ex = first_executor A bt'"
    and old: "\<forall>h bt' res. inflight b0 h = Some (bt', res) \<longrightarrow>
              entry_ok A (dead b0) (maxBatchSize b0) h bt' res"
    and below: "timeout bt < nextTimer b0"
    and new: "group_ok A k bt"
    and used: "a = used_executor A (maxBatchSize b0) bt (map config (requests bt))"
  shows "hist_ok A (flush_state b0 k bt a)"
proof -
  let ?b = "flush_state b0 k bt a"
  have g': "groups_ok A ?b"
    using g unfolding groups_ok_def by (auto split: if_splits)
  have t': "timers_ok A ?b"
    using t unfolding timers_ok_def by (auto split: if_splits)
  have d: "dead b0 \<subseteq> dead ?b"
    by (auto simp: dead_flush_state dead_def)
  have i': "inflight_ok A ?b"
  proof (rule inflight_ok_flush [OF _ _ refl refl])
    show "\<forall>h bt' res. inflight b0 h = Some (bt', res) \<longrightarrow>
        entry_ok A (dead ?b) (maxBatchSize b0) h bt' res"
      using old d unfolding entry_ok_def by blast
    show "\<forall>res. launched a = Some res \<longrightarrow> entry_ok A (dead ?b) (maxBatchSize b0) (timeout bt) bt res"
      using new below used by (auto simp: entry_ok_def dead_flush_state)
  qed
  show ?thesis
    using ok' g' t' i' p by (simp add: hist_ok_def)
qed

lemma hist_rest:
  assumes h: "hist_ok adds b"
    and same: "batches b0 = batches b" "timers b0 = timers b" "inflight b0 = inflight b"
      "maxBatchSize b0 = maxBatchSize b"
    and d: "dead b \<subseteq> dead b0"
  shows "\<forall>k' bt'. k' \<noteq> k \<longrightarrow> batches b0 k' = Some bt' \<longrightarrow>
              group_ok (adds @ xs) k' bt' \<and> int (length (requests bt')) < maxBatchSize b0"
    and "\<forall>h k' ex bt'. k' \<noteq> k \<longrightarrow> timers b0 h = Some (k', ex) \<longrightarrow> batches b0 k' = Some bt' \<longrightarrow>
              ex = first_executor (adds @ xs) bt'"
    and "\<forall>h bt' res. inflight b0 h = Some (bt', res) \<longrightarrow>
              entry_ok (adds @ xs) (dead b0) (maxBatchSize b0) h bt' res"
proof -
  from h have g: "groups_ok adds b" and t: "timers_ok adds b" and i: "inflight_ok adds b"
    by (simp_all add: hist_ok_def)
  show "\<forall>k' bt'. k' \<noteq> k \<longrightarrow> batches b0 k' = Some bt' \<longrightarrow>
              group_ok (adds @ xs) k' bt' \<and> int (length (requests bt')) < maxBatchSize b0"
    using g by (auto simp: groups_ok_def same intro: group_ok_mono)
  show "\<forall>h k' ex bt'. k' \<noteq> k \<longrightarrow> timers b0 h = Some (k', ex) \<longrightarrow> batches b0 k' = Some bt' \<longrightarrow>
              ex = first_executor (adds @ xs) bt'"
  proof (intro allI impI)
    fix h k' ex bt'
    assume tm: "timers b0 h = Some (k', ex)" and bt: "batches b0 k' = Some bt'"
    from t tm bt have "ex = first_executor adds bt'"
      by (auto simp: timers_ok_def same)
    moreover from g bt have "group_ok adds k' bt'"
      by (simp add: groups_ok_def same)
    ultimately show "ex = first_executor (adds @ xs) bt'"
      by (simp add: first_executor_mono)
  qed
  show "\<forall>h bt' res. inflight b0 h = Some (bt', res) \<longrightarrow>
              entry_ok (adds @ xs) (dead b0) (maxBatchSize b0) h bt' res"
  proof (intro allI impI)
    fix h bt' res assume "inflight b0 h = Some (bt', res)"
    with i have "entry_ok adds (dead b) (maxBatchSize b) h bt' res"
      by (simp add: inflight_ok_def same)
    from entry_ok_mono [OF this d] show "entry_ok (adds @ xs) (dead b0) (maxBatchSize b0) h bt' res"
      by (simp add: same)
  qed
qed

lemma hist_add_new_full:
  assumes h: "hist_ok adds b" and none: "batches b (getBatchKey cfg) = None"
    and m: "maxBatchSize b \<le> 1"
    and bt: "bt = \<lparr>requests = [\<lparr>config = cfg, promise = nextPromise b\<rparr>], timeout = nextTimer b\<rparr>"
  shows "hist_ok (adds @ [(cfg, ex)])
     (flush_state (b\<lparr>nextPromise := nextPromise b + 1, nextTimer := nextTimer b + 1\<rparr>)
        (getBatchKey cfg) bt (ex [cfg]))"
proof -
  let ?k = "getBatchKey cfg"
  let ?A = "adds @ [(cfg, ex)]"
  let ?b0 = "b\<lparr>nextPromise := nextPromise b + 1, nextTimer := nextTimer b + 1\<rparr>"
  from h have ok: "batcher_ok b" and p: "nextPromise b = length adds"
    by (simp_all add: hist_ok_def)
  have fresh: "nextTimer b \<notin> dom (timers b)"
    using ok unfolding batcher_ok_def by fastforce
  have ok0: "batcher_ok ?b0"
    by (rule ok_bump [OF ok])
  have ok': "batcher_ok (flush_state ?b0 ?k bt (ex [cfg]))"
    using none fresh by (intro ok_flush_fresh [OF ok0]) (simp_all add: bt)
  have d: "dead b \<subseteq> dead ?b0"
    by (auto simp: dead_def)
  note rest = hist_rest [OF h, of ?b0, OF _ _ _ _ d, where xs = "[(cfg, ex)]"]
  have new: "group_ok ?A ?k bt"
    using group_ok_single [of adds cfg ex "nextTimer b"] by (simp add: bt p)
  have used: "ex [cfg] = used_executor ?A (maxBatchSize ?b0) bt (map config (requests bt))"
    using m by (simp add: used_executor_def bt p)
  show ?thesis
    by (rule hist_flush [OF ok0 ok' _ rest _ new used]) (simp_all add: p bt)
qed

lemma hist_add_old_full:
  assumes h: "hist_ok adds b" and some: "batches b (getBatchKey cfg) = Some bt0"
    and m: "maxBatchSize b \<le> int (length (requests bt0)) + 1"
    and bt: "bt = bt0\<lparr>requests := requests bt0 @ [\<lparr>config = cfg, promise = nextPromise b\<rparr>]\<rparr>"
  shows "hist_ok (adds @ [(cfg, ex)])
     (flush_state (b\<lparr>nextPromise := nextPromise b + 1\<rparr>) (getBatchKey cfg) bt
        (ex (map config (requests bt0) @ [cfg])))"
proof -
  let ?k = "getBatchKey cfg"
  let ?A = "adds @ [(cfg, ex)]"
  let ?b0 = "b\<lparr>nextPromise := nextPromise b + 1\<rparr>"
  from h have ok: "batcher_ok b" and p: "nextPromise b = length adds"
    and g: "groups_ok adds b"
    by (simp_all add: hist_ok_def)
  have g0: "group_ok adds ?k bt0"
    using g some by (simp add: groups_ok_def)
  have ok0: "batcher_ok ?b0"
    by (rule ok_promise [OF ok])
  have ok': "batcher_ok (flush_state ?b0 ?k bt (ex (map config (requests bt0) @ [cfg])))"
    using some by (intro ok_flush_in_map [OF ok0, of _ bt0]) (simp_all add: bt)
  have d: "dead b \<subseteq> dead ?b0"
    by (auto simp: dead_def)
  note rest = hist_rest [OF h, of ?b0, OF _ _ _ _ d, where xs = "[(cfg, ex)]"]
  have new: "group_ok ?A ?k bt"
    using group_ok_push [OF g0, of ex] by (simp add: bt p)
  have used: "ex (map config (requests bt0) @ [cfg])
      = used_executor ?A (maxBatchSize ?b0) bt (map config (requests bt))"
    using m by (simp add: used_executor_def bt p)
  have below: "timeout bt < nextTimer ?b0"
    using armed_below [OF ok some] by (simp add: bt)
  show ?thesis
    by (rule hist_flush [OF ok0 ok' _ rest below new used]) (simp_all add: p)
qed

lemma hist_fire_armed:
  assumes h: "hist_ok adds b" and tm: "timers b h0 = Some (k, ex)"
    and bt: "batches b k = Some bt" "timeout bt = h0"
  shows "hist_ok adds (flush_state b k bt (ex (map config (requests bt))))"
proof -
  from h have ok: "batcher_ok b" and p: "nextPromise b = length adds"
    and g: "groups_ok adds b" and t: "timers_ok adds b"
    by (simp_all add: hist_ok_def)
  have g0: "group_ok adds k bt" and small: "int (length (requests bt)) < maxBatchSize b"
    using g bt(1) by (simp_all add: groups_ok_def)
  have ok': "batcher_ok (flush_state b k bt (ex (map config (requests bt))))"
    by (rule ok_flush_in_map [OF ok bt(1) refl])
  note rest = hist_rest [OF h, of b, OF refl refl refl refl subset_refl, where xs = "[]"]
  have "ex = first_executor adds bt"
    using t tm bt(1) by (auto simp: timers_ok_def)
  then have used: "ex (map config (requests bt))
      = used_executor adds (maxBatchSize b) bt (map config (requests bt))"
    using small by (simp add: used_executor_def first_executor_def)
  have below: "timeout bt < nextTimer b"
    using armed_below [OF ok bt(1)] by simp
  show ?thesis
    using hist_flush [OF ok ok' p _ _ _ below g0 used] rest by simp
qed

lemma hist_resumed:
  assumes h: "hist_ok adds b"
  shows "hist_ok adds (b\<lparr>inflight := (inflight b)(h0 := None)\<rparr>)"
  using h unfolding hist_ok_def groups_ok_def timers_ok_def inflight_ok_def batcher_ok_def dead_def
  by (auto split: if_splits)

lemma flush_facts:
  assumes "timeout bt < nextTimer b0" "dead b \<subseteq> dead b0" "timeout bt \<notin> dead b"
    and "maxBatchSize b0 = maxBatchSize b"
  shows "maxBatchSize (flush_state b0 k bt a) = maxBatchSize b
       \<and> dead b \<subseteq> dead (flush_state b0 k bt a)
       \<and> distinct (invoked_handles (flush_effects k bt a))
       \<and> set (invoked_handles (flush_effects k bt a)) \<subseteq> dead (flush_state b0 k bt a) - dead b
       \<and> ordered (flush_effects k bt a)"
proof -
  have "dead b0 \<subseteq> dead (flush_state b0 k bt a)"
    by (auto simp: dead_flush_state dead_def)
  moreover have "timeout bt \<in> dead (flush_state b0 k bt a)"
    using assms(1) by (simp add: dead_flush_state)
  ultimately show ?thesis
    using assms flush_effects_shape [of k bt a] by auto
qed

lemma idle_facts:
  "maxBatchSize b = maxBatchSize b \<and> dead b \<subseteq> dead b
   \<and> distinct (invoked_handles ([] :: ('e, 'r) effect list))
   \<and> set (invoked_handles ([] :: ('e, 'r) effect list)) \<subseteq> dead b - dead b
   \<and> ordered ([] :: ('e, 'r) effect list)"
  by simp

lemma add_facts:
  assumes h: "hist_ok adds b" and st: "add b cfg ex = (p, b', eff)"
  shows "hist_ok (adds @ [(cfg, ex)]) b' \<and> maxBatchSize b' = maxBatchSize b \<and> dead b \<subseteq> dead b'
       \<and> distinct (invoked_handles eff) \<and> set (invoked_handles eff) \<subseteq> dead b' - dead b
       \<and> ordered eff"
proof -
  from h have ok: "batcher_ok b"
    by (simp add: hist_ok_def)
  have fresh: "nextTimer b \<notin> dom (timers b)"
    using ok unfolding batcher_ok_def by fastforce
  show ?thesis
  proof (cases "batches b (getBatchKey cfg)")
    case None
    show ?thesis
    proof (cases "1 < maxBatchSize b")
      case True
      from add_new_open [OF None True, of ex] st
      have b': "b' = b\<lparr>nextPromise := nextPromise b + 1,
         timers := (timers b)(nextTimer b \<mapsto> (getBatchKey cfg, ex)),
         nextTimer := nextTimer b + 1,
         batches := (batches b)(getBatchKey cfg \<mapsto>
            \<lparr>requests = [\<lparr>config = cfg, promise = nextPromise b\<rparr>], timeout = nextTimer b\<rparr>)\<rparr>"
        and eff: "eff = []"
        by simp_all
      have "dead b \<subseteq> dead b'"
        using fresh by (auto simp: dead_def b')
      with hist_add_new_open [OF h None b' True] show ?thesis
        by (simp add: eff) (simp add: b')
    next
      case False
      then have le: "maxBatchSize b \<le> 1" by simp
      let ?bt = "\<lparr>requests = [\<lparr>config = cfg, promise = nextPromise b\<rparr>], timeout = nextTimer b\<rparr>"
      let ?b0 = "b\<lparr>nextPromise := nextPromise b + 1, nextTimer := nextTimer b + 1\<rparr>"
      from add_new_full [OF None le refl, of ex] st
      have b': "b' = flush_state ?b0 (getBatchKey cfg) ?bt (ex [cfg])"
        and eff: "eff = flush_effects (getBatchKey cfg) ?bt (ex [cfg])"
        by simp_all
      have "timeout ?bt < nextTimer ?b0" "dead b \<subseteq> dead ?b0" "timeout ?bt \<notin> dead b"
        "maxBatchSize ?b0 = maxBatchSize b"
        by (auto simp: dead_def)
      from flush_facts [OF this] hist_add_new_full [OF h None le refl, of ex]
      show ?thesis
        unfolding b' eff by blast
    qed
  next
    case (Some bt0)
    show ?thesis
    proof (cases "int (length (requests bt0)) + 1 < maxBatchSize b")
      case True
      from add_old_open [OF Some True, of ex] st
      have b': "b' = b\<lparr>nextPromise := nextPromise b + 1,
         batches := (batches b)(getBatchKey cfg \<mapsto>
            bt0\<lparr>requests := requests bt0 @ [\<lparr>config = cfg, promise = nextPromise b\<rparr>]\<rparr>)\<rparr>"
        and eff: "eff = []"
        by simp_all
      have "dead b \<subseteq> dead b'"
        by (auto simp: dead_def b')
      with hist_add_old_open [OF h Some b' True] show ?thesis
        by (simp add: eff) (simp add: b')
    next
      case False
      then have le: "maxBatchSize b \<le> int (length (requests bt0)) + 1" by simp
      let ?bt = "bt0\<lparr>requests := requests bt0 @ [\<lparr>config = cfg, promise = nextPromise b\<rparr>]\<rparr>"
      let ?b0 = "b\<lparr>nextPromise := nextPromise b + 1\<rparr>"
      let ?a = "ex (map config (requests bt0) @ [cfg])"
      from add_old_full [OF Some le refl, of ex] st
      have b': "b' = flush_state ?b0 (getBatchKey cfg) ?bt ?a"
        and eff: "eff = flush_effects (getBatchKey cfg) ?bt ?a"
        by simp_all
      have "timeout ?bt < nextTimer ?b0" "dead b \<subseteq> dead ?b0" "timeout ?bt \<notin> dead b"
        "maxBatchSize ?b0 = maxBatchSize b"
        using armed_below [OF ok Some] by (auto simp: dead_def)
      from flush_facts [OF this] hist_add_old_full [OF h Some le refl, of ex]
      show ?thesis
        unfolding b' eff by blast
    qed
  qed
qed

lemma fire_facts:
  assumes h: "hist_ok adds b" and st: "fire b h0 = (b', eff)"
  shows "hist_ok adds b' \<and> maxBatchSize b' = maxBatchSize b \<and> dead b \<subseteq> dead b'
       \<and> distinct (invoked_handles eff) \<and> set (invoked_handles eff) \<subseteq> dead b' - dead b
       \<and> ordered eff"
proof (cases "timers b h0")
  case None
  with st have "b' = b" "eff = []"
    by (simp_all add: fire_unarmed)
  with h show ?thesis by simp
next
  case (Some ke)
  obtain k ex where ke: "ke = (k, ex)" by (cases ke)
  from h have ok: "batcher_ok b"
    by (simp add: hist_ok_def)
  from timer_key [OF ok Some [unfolded ke]]
  obtain bt where bt: "batches b k = Some bt" "timeout bt = h0"
    by blast
  let ?a = "ex (map config (requests bt))"
  from fire_armed [OF Some [unfolded ke] bt] st
  have b': "b' = flush_state b k bt ?a" and eff: "eff = flush_effects k bt ?a"
    by simp_all
  have "timeout bt < nextTimer b" "dead b \<subseteq> dead b" "timeout bt \<notin> dead b"
    "maxBatchSize b = maxBatchSize b"
    using armed_below [OF ok bt(1)] by (auto simp: dead_def)
  from flush_facts [OF this] hist_fire_armed [OF h Some [unfolded ke] bt]
  show ?thesis
    unfolding b' eff by blast
qed

lemma resumed_facts:
  assumes h: "hist_ok adds b" and st: "executeBatch_resumed b h0 = (b', eff)"
  shows "hist_ok adds b' \<and> maxBatchSize b' = maxBatchSize b \<and> dead b \<subseteq> dead b'
       \<and> distinct (invoked_handles eff) \<and> set (invoked_handles eff) \<subseteq> dead b' - dead b
       \<and> ordered eff"
proof (cases "inflight b h0")
  case None
  with st have "b' = b" "eff = []"
    by (simp_all add: resumed_none)
  with h show ?thesis by simp
next
  case (Some e)
  obtain bt res where e: "e = (bt, res)" by (cases e)
  from resumed_some [OF Some [unfolded e]] st
  have b': "b' = b\<lparr>inflight := (inflight b)(h0 := None)\<rparr>"
    and eff: "eff = (case res of Inr results \<Rightarrow> resolveAll bt results | Inl error \<Rightarrow> rejectAll bt error)"
    by simp_all
  have "\<forall>x \<in> set eff. \<exists>p out. x = Settled p out"
    using resolveAll_settled [of bt] rejectAll_settled [of bt]
    unfolding eff by (cases res) simp_all
  from settled_only [OF this] hist_resumed [OF h, of h0] show ?thesis
    by (simp add: b' dead_def)
qed

lemma adds_of_append: "adds_of (xs @ ys) = adds_of xs @ adds_of ys"
  by (induction xs rule: adds_of.induct) simp_all

lemma step_facts:
  assumes h: "hist_ok adds b" and st: "step b ev = (b', eff)"
  shows "hist_ok (adds @ adds_of [ev]) b' \<and> maxBatchSize b' = maxBatchSize b \<and> dead b \<subseteq> dead b'
       \<and> distinct (invoked_handles eff) \<and> set (invoked_handles eff) \<subseteq> dead b' - dead b
       \<and> ordered eff"
proof (cases ev)
  case (Add cfg ex)
  with st have "add b cfg ex = (fst (add b cfg ex), b', eff)"
    by (cases "add b cfg ex") (simp add: step_def)
  from add_facts [OF h this] Add show ?thesis by simp
next
  case (Fire h0)
  with st have "fire b h0 = (b', eff)"
    by (simp add: step_def)
  from fire_facts [OF h this] Fire show ?thesis by simp
next
  case (Settle h0)
  with st have "executeBatch_resumed b h0 = (b', eff)"
    by (simp add: step_def)
  from resumed_facts [OF h this] Settle show ?thesis by simp
qed

lemma run_facts:
  assumes "hist_ok adds b"
  shows "hist_ok (adds @ adds_of evs) (fst (run b evs))
       \<and> maxBatchSize (fst (run b evs)) = maxBatchSize b
       \<and> dead b \<subseteq> dead (fst (run b evs))
       \<and> distinct (invoked_handles (snd (run b evs)))
       \<and> set (invoked_handles (snd (run b evs))) \<subseteq> dead (fst (run b evs)) - dead b
       \<and> ordered (snd (run b evs))"
  using assms
proof (induction evs arbitrary: b adds)
  case Nil
  then show ?case by simp
next
  case (Cons ev evs)
  obtain b' eff where st: "step b ev = (b', eff)"
    by (cases "step b ev")
  note s = step_facts [OF Cons.prems st]
  then have h': "hist_ok (adds @ adds_of [ev]) b'" by simp
  note ih = Cons.IH [OF h']
  obtain b'' rest where r: "run b' evs = (b'', rest)"
    by (cases "run b' evs")
  have a: "adds @ adds_of (ev # evs) = (adds @ adds_of [ev]) @ adds_of evs"
    using adds_of_append [of "[ev]" evs] by simp
  have "ordered (eff @ rest)"
    using s ih by (simp add: r ordered_append)
  moreover have "distinct (invoked_handles (eff @ rest))"
    using s ih by (auto simp: r invoked_append)
  moreover have "set (invoked_handles (eff @ rest)) \<subseteq> dead b'' - dead b"
    using s ih by (auto simp: r invoked_append)
  ultimately show ?case
    using s ih unfolding a by (auto simp: st r)
qed

lemma hist_new: "hist_ok [] (new_RequestBatcher w m)"
  by (simp add: hist_ok_def batcher_ok_new groups_ok_def timers_ok_def inflight_ok_def)
    (simp add: new_RequestBatcher_def)

lemma reach_facts:
  assumes "run (new_RequestBatcher w m) evs = (s, tr)"
  shows "hist_ok (adds_of evs) s" "maxBatchSize s = m" "distinct (invoked_handles tr)"
    "set (invoked_handles tr) \<subseteq> dead s" "ordered tr"
  using run_facts [OF hist_new, where evs = evs and w1 = w and m1 = m] assms
  by (auto simp: new_RequestBatcher_def)

lemma resolveAll_nth:
  "resolveAll bt results =
     map (\<lambda>i. Settled (promise (requests bt ! i))
                 (Resolved (if i < length results then Some (results ! i) else None)))
       [0..<length (requests bt)]"
  by (rule nth_equalityI) (simp_all add: resolveAll_def)

lemma batch_eq: "bt\<lparr>requests := rs\<rparr> = \<lparr>requests = rs, timeout = timeout bt\<rparr>"
  by (cases bt) simp

lemma add_open:
  assumes "int (length (old_requests b (getBatchKey cfg))) + 1 < maxBatchSize b"
  shows "snd (snd (add b cfg ex)) = []
       \<and> batches (fst (snd (add b cfg ex)))
           = (batches b)(getBatchKey cfg \<mapsto>
                \<lparr>requests = old_requests b (getBatchKey cfg) @ [\<lparr>config = cfg, promise = nextPromise b\<rparr>],
                 timeout = group_handle b (getBatchKey cfg)\<rparr>)
       \<and> inflight (fst (snd (add b cfg ex))) = inflight b
       \<and> timers (fst (snd (add b cfg ex)))
           = (case batches b (getBatchKey cfg) of
                None \<Rightarrow> (timers b)(nextTimer b \<mapsto> (getBatchKey cfg, ex))
              | Some bt \<Rightarrow> timers b)"
proof (cases "batches b (getBatchKey cfg)")
  case None
  with assms have "1 < maxBatchSize b"
    by (simp add: old_requests_def)
  from add_new_open [OF None this, of ex] None show ?thesis
    by (simp add: old_requests_def group_handle_def)
next
  case (Some bt)
  with assms have "int (length (requests bt)) + 1 < maxBatchSize b"
    by (simp add: old_requests_def)
  from add_old_open [OF Some this, of ex] Some show ?thesis
    by (simp add: old_requests_def group_handle_def batch_eq)
qed

lemma add_full:
  assumes "maxBatchSize b \<le> int (length (old_requests b (getBatchKey cfg))) + 1"
    and bt: "bt = \<lparr>requests = old_requests b (getBatchKey cfg) @ [\<lparr>config = cfg, promise = nextPromise b\<rparr>],
                   timeout = group_handle b (getBatchKey cfg)\<rparr>"
  shows "snd (snd (add b cfg ex)) = flush_effects (getBatchKey cfg) bt (ex (map config (requests bt)))
       \<and> batches (fst (snd (add b cfg ex))) = (batches b)(getBatchKey cfg := None)
       \<and> timers (fst (snd (add b cfg ex))) = (timers b)(timeout bt := None)
       \<and> inflight (fst (snd (add b cfg ex)))
           = (case launched (ex (map config (requests bt))) of
                None \<Rightarrow> inflight b
              | Some res \<Rightarrow> (inflight b)(timeout bt \<mapsto> (bt, res)))"
proof (cases "batches b (getBatchKey cfg)")
  case None
  with assms have m: "maxBatchSize b \<le> 1"
    by (simp add: old_requests_def)
  have e: "bt = \<lparr>requests = [\<lparr>config = cfg, promise = nextPromise b\<rparr>], timeout = nextTimer b\<rparr>"
    using None by (simp add: bt old_requests_def group_handle_def)
  from add_new_full [OF None m e, of ex] show ?thesis
    by (simp add: e split: option.splits)
next
  case (Some bt0)
  with assms have m: "maxBatchSize b \<le> int (length (requests bt0)) + 1"
    by (simp add: old_requests_def)
  have e: "bt = bt0\<lparr>requests := requests bt0 @ [\<lparr>config = cfg, promise = nextPromise b\<rparr>]\<rparr>"
    using Some by (simp add: bt old_requests_def group_handle_def batch_eq)
  from add_old_full [OF Some m e, of ex] show ?thesis
    by (simp add: e split: option.splits)
qed

lemma flush_effects_Fulfils:
  "a = Fulfils rs \<Longrightarrow>
   flush_effects k bt a = [Removed k (timeout bt), Invoked (timeout bt) (map config (requests bt))]"
  by (simp add: flush_effects_def thrown_def)

lemma flush_effects_Rejects:
  "a = Rejects e \<Longrightarrow>
   flush_effects k bt a = [Removed k (timeout bt), Invoked (timeout bt) (map config (requests bt))]"
  by (simp add: flush_effects_def thrown_def)

lemma flush_effects_Throws:
  "a = Throws e \<Longrightarrow>
   flush_effects k bt a =
     [Removed k (timeout bt), Invoked (timeout bt) (map config (requests bt))]
       @ map (\<lambda>r. Settled (promise r) (Rejected e)) (requests bt)"
  by (simp add: flush_effects_def thrown_def rejectAll_def)

lemma fire_reach:
  assumes h: "hist_ok adds b" and tm: "timers b h0 = Some (k, ex)"
  shows "\<exists>bt. batches b k = Some bt \<and> timeout bt = h0
           \<and> group_ok adds k bt \<and> int (length (requests bt)) < maxBatchSize b
           \<and> ex = first_executor adds bt
           \<and> fire b h0 = (flush_state b k bt (ex (map config (requests bt))),
                          flush_effects k bt (ex (map config (requests bt))))"
proof -
  from h have ok: "batcher_ok b" and g: "groups_ok adds b" and t: "timers_ok adds b"
    by (simp_all add: hist_ok_def)
  from timer_key [OF ok tm] obtain bt where bt: "batches b k = Some bt" "timeout bt = h0"
    by blast
  from g bt(1) have "group_ok adds k bt" "int (length (requests bt)) < maxBatchSize b"
    by (simp_all add: groups_ok_def)
  moreover from t tm bt(1) have "ex = first_executor adds bt"
    by (auto simp: timers_ok_def)
  ultimately show ?thesis
    using fire_armed [OF tm bt] bt by blast
qed

lemma used_executor_mem:
  assumes "group_ok adds k bt"
  shows "used_executor adds m bt \<in> snd ` set adds"
  using group_ok_hd [OF assms] group_ok_last [OF assms]
  by (auto simp: used_executor_def intro!: imageI nth_mem)

lemma add_promise: "fst (add b cfg ex) = nextPromise b"
  by (simp add: add_def Let_def split: option.splits prod.splits)

lemma group_facts:
  assumes h: "hist_ok adds b" and bt: "batches b k = Some bt"
  shows "(\<exists>ex0. timers b (timeout bt) = Some (k, ex0))
       \<and> requests bt \<noteq> []
       \<and> int (length (requests bt)) < maxBatchSize b
       \<and> sorted_wrt (<) (map promise (requests bt))
       \<and> (\<forall>r \<in> set (requests bt).
             promise r < length adds \<and> config r = fst (adds ! promise r)
             \<and> getBatchKey (config r) = k)"
proof -
  from h have ok: "batcher_ok b" and g: "groups_ok adds b"
    by (simp_all add: hist_ok_def)
  from ok bt have "\<exists>ex0. timers b (timeout bt) = Some (k, ex0)"
    unfolding batcher_ok_def by blast
  moreover from g bt have "group_ok adds k bt \<and> int (length (requests bt)) < maxBatchSize b"
    by (simp add: groups_ok_def)
  ultimately show ?thesis
    unfolding group_ok_def by fastforce
qed

lemma inflight_facts:
  assumes h: "hist_ok adds b" and e: "inflight b h0 = Some (bt, res)"
  shows "timeout bt = h0 \<and> h0 < nextTimer b \<and> timers b h0 = None
       \<and> (\<forall>k bt'. batches b k = Some bt' \<longrightarrow> timeout bt' \<noteq> h0)
       \<and> fire b h0 = (b, [])
       \<and> requests bt \<noteq> []
       \<and> sorted_wrt (<) (map promise (requests bt))
       \<and> (\<forall>r \<in> set (requests bt).
             promise r < length adds \<and> config r = fst (adds ! promise r))
       \<and> launched (used_executor adds (maxBatchSize b) bt (map config (requests bt))) = Some res
       \<and> used_executor adds (maxBatchSize b) bt \<in> snd ` set adds"
proof -
  from h have ok: "batcher_ok b" and i: "inflight_ok adds b"
    by (simp_all add: hist_ok_def)
  from i e have en: "entry_ok adds (dead b) (maxBatchSize b) h0 bt res"
    by (simp add: inflight_ok_def)
  then obtain k where k: "group_ok adds k bt"
    by (auto simp: entry_ok_def)
  from en have d: "h0 < nextTimer b" "timers b h0 = None"
    by (auto simp: entry_ok_def dead_def)
  have "\<forall>k bt'. batches b k = Some bt' \<longrightarrow> timeout bt' \<noteq> h0"
    using armed_below [OF ok] d(2) by fastforce
  moreover have "fire b h0 = (b, [])"
    using d(2) by (rule fire_unarmed)
  moreover have "used_executor adds (maxBatchSize b) bt \<in> snd ` set adds"
    using k by (rule used_executor_mem)
  ultimately show ?thesis
    using en d k by (simp add: entry_ok_def group_ok_def)
qed

lemma inflight_frame:
  assumes h: "hist_ok adds b" and e: "inflight b h0 = Some x" and ev: "ev \<noteq> Settle h0"
  shows "inflight (fst (step b ev)) h0 = Some x"
proof -
  obtain bt res where x: "x = (bt, res)"
    by (cases x)
  from h have ok: "batcher_ok b"
    by (simp add: hist_ok_def)
  note f = inflight_facts [OF h e [unfolded x]]
  show ?thesis
  proof (cases ev)
    case (Add cfg ex)
    show ?thesis
    proof (cases "int (length (old_requests b (getBatchKey cfg))) + 1 < maxBatchSize b")
      case True
      from add_open [OF True, of ex] e Add show ?thesis
        by (simp add: step_def)
    next
      case False
      then have m: "maxBatchSize b \<le> int (length (old_requests b (getBatchKey cfg))) + 1"
        by simp
      have "group_handle b (getBatchKey cfg) \<noteq> h0"
        using f by (auto simp: group_handle_def split: option.splits)
      with add_full [OF m refl, of ex] e Add show ?thesis
        by (simp add: step_def split: option.splits)
    qed
  next
    case (Fire h1)
    show ?thesis
    proof (cases "timers b h1")
      case None
      with e Fire show ?thesis
        by (simp add: step_def fire_unarmed)
    next
      case (Some a)
      obtain k ex where a: "a = (k, ex)"
        by (cases a)
      from fire_reach [OF h Some [unfolded a]] obtain bt1 where
        b1: "timeout bt1 = h1"
          "fire b h1 = (flush_state b k bt1 (ex (map config (requests bt1))),
                        flush_effects k bt1 (ex (map config (requests bt1))))"
        by blast
      have "h1 \<noteq> h0"
        using f Some by auto
      with b1 e Fire show ?thesis
        by (simp add: step_def split: option.splits)
    qed
  next
    case (Settle h1)
    with ev have "h1 \<noteq> h0"
      by simp
    with e Settle show ?thesis
      by (cases "inflight b h1") (auto simp: step_def resumed_none resumed_some)
  qed
qed

lemma batches_frame:
  assumes h: "hist_ok adds b" and bt: "batches b k = Some bt"
    and a: "\<forall>cfg ex. ev = Add cfg ex \<longrightarrow> getBatchKey cfg \<noteq> k" and f: "ev \<noteq> Fire (timeout bt)"
  shows "batches (fst (step b ev)) k = Some bt"
proof (cases ev)
  case (Add cfg ex)
  with a have k: "getBatchKey cfg \<noteq> k"
    by simp
  show ?thesis
  proof (cases "int (length (old_requests b (getBatchKey cfg))) + 1 < maxBatchSize b")
    case True
    from add_open [OF True, of ex] bt k Add show ?thesis
      by (simp add: step_def)
  next
    case False
    then have m: "maxBatchSize b \<le> int (length (old_requests b (getBatchKey cfg))) + 1"
      by simp
    from add_full [OF m refl, of ex] bt k Add show ?thesis
      by (simp add: step_def)
  qed
next
  case (Fire h1)
  show ?thesis
  proof (cases "timers b h1")
    case None
    with bt Fire show ?thesis
      by (simp add: step_def fire_unarmed)
  next
    case (Some a)
    obtain k1 ex where a: "a = (k1, ex)"
      by (cases a)
    from fire_reach [OF h Some [unfolded a]] obtain bt1 where
      b1: "batches b k1 = Some bt1" "timeout bt1 = h1"
        "fire b h1 = (flush_state b k1 bt1 (ex (map config (requests bt1))),
                      flush_effects k1 bt1 (ex (map config (requests bt1))))"
      by blast
    have "k1 \<noteq> k"
      using b1 bt f Fire by auto
    with b1 bt Fire show ?thesis
      by (simp add: step_def)
  qed
next
  case (Settle h1)
  with bt show ?thesis
    by (cases "inflight b h1") (auto simp: step_def resumed_none resumed_some)
qed

lemma dead_facts:
  assumes ok: "batcher_ok b" and d: "h \<in> dead b"
  shows "h < nextTimer b \<and> timers b h = None \<and> fire b h = (b, [])
       \<and> (\<forall>k bt. batches b k = Some bt \<longrightarrow> timeout bt \<noteq> h)"
proof -
  from d have t: "h < nextTimer b" "timers b h = None"
    by (auto simp: dead_def)
  have "\<forall>k bt. batches b k = Some bt \<longrightarrow> timeout bt \<noteq> h"
    using armed_below [OF ok] t(2) by fastforce
  with t fire_unarmed [OF t(2)] show ?thesis
    by simp
qed

subsection \<open>Facts of the example run\<close>

lemma example_reach:
  "run (new_RequestBatcher 100 3) evs = (state_after evs, trace_of evs)"
  by (simp add: state_after_def trace_of_def example_batcher_def)

lemma example_keys:
  "getBatchKey example_config = ''GET:/items''"
  "getBatchKey example_config2 = ''GET:/users''"
  "getBatchKey example_config4 = ''GET:/items''"
  by code_simp+

lemma example_state3:
  "length (adds_of (take 3 example_events)) = 3"
  "old_requests (state_after (take 3 example_events)) ''GET:/items''
     = [\<lparr>config = example_config, promise = 0\<rparr>, \<lparr>config = example_config4, promise = 1\<rparr>]"
  "group_handle (state_after (take 3 example_events)) ''GET:/items'' = 0"
  "batches (state_after (take 3 example_events)) ''GET:/items''
     = Some \<lparr>requests = [\<lparr>config = example_config, promise = 0\<rparr>,
                          \<lparr>config = example_config4, promise = 1\<rparr>],
             timeout = 0\<rparr>"
  by code_simp+

lemma example_state5:
  "batches (state_after (take 5 example_events)) ''GET:/items'' = None"
  "nextTimer (state_after (take 5 example_events)) = 2"
  by code_simp+

lemma example_state9:
  "batches (state_after (take 9 example_events)) ''GET:/items''
     = Some \<lparr>requests = [\<lparr>config = example_config, promise = 4\<rparr>], timeout = 2\<rparr>"
  by code_simp

lemma example_state10:
  "timers (state_after (take 10 example_events)) 2 \<noteq> None"
  "fst (the (timers (state_after (take 10 example_events)) 2)) = ''GET:/items''"
  "batches (state_after (take 10 example_events)) ''GET:/items''
     = Some \<lparr>requests = [\<lparr>config = example_config, promise = 4\<rparr>,
                          \<lparr>config = example_config4, promise = 5\<rparr>],
             timeout = 2\<rparr>"
  "snd (the (timers (state_after (take 10 example_events)) 2)) [example_config, example_config4]
     = Rejects ''upstream failed''"
  by code_simp+

lemma example_state11:
  "inflight (state_after (take 11 example_events)) 2
     = Some (\<lparr>requests = [\<lparr>config = example_config, promise = 4\<rparr>,
                           \<lparr>config = example_config4, promise = 5\<rparr>],
              timeout = 2\<rparr>, Inl ''upstream failed'')"
  "batches (state_after (take 11 example_events)) ''GET:/items'' = None"
  "nextTimer (state_after (take 11 example_events)) = 3"
  "length (adds_of (take 11 example_events)) = 6"
  by code_simp+

lemma example_throws:
  "throwing_executor [example_config, example_config4, example_config] = Throws ''no route''"
  by (simp add: throwing_executor_def)

lemma example_adds4:
  "adds_of (take 10 example_events) ! 4 = (example_config, failing_executor)"
  by (simp add: example_events_def)

lemma example_final:
  "invoked_handles (trace_of example_events) = [0, 1, 2]"
  "1 < length (trace_of example_events)"
  "trace_of example_events ! 1 = Invoked 0 [example_config, example_config4, example_config]"
  by code_simp+

subsection \<open>Results by position\<close>

text \<open>
  C5: let \<open>s\<close> be the batcher after any run of \<open>add\<close> calls, timer firings and settled
  executor promises on a new batcher, in any order and for any keys. The promise that the
  next call of \<open>add\<close> returns has the number of that call. The requests of every group in
  the map, and of every batch held by a suspended execution, are in the order of the
  calls that enqueued them and carry the configurations of those calls; every group in
  the map has its timer armed. A call of \<open>add\<close> that does not reach \<open>maxBatchSize\<close> puts
  its request at the end of its group, and no other step changes a group except the timer
  of that group. When a call of \<open>add\<close> reaches \<open>maxBatchSize\<close>, or when the timer of a
  group fires, and the executor is fulfilled with \<open>results\<close> on the configurations of the
  group, taken in that order, then the executor is called on exactly these configurations
  and the suspended execution holds the whole group together with \<open>results\<close>. When that
  execution resumes, the request at position \<open>i\<close> is resolved with \<open>results[i]\<close>
  (\<open>undefined\<close> past the end of \<open>results\<close>) for every position of the group, in the order
  of the positions; \<open>results\<close> is what an executor given to \<open>add\<close> was fulfilled with on the
  configurations of the batch. Until then no other step touches the suspended execution.
\<close>

theorem results_by_position:
  assumes reach: "run (new_RequestBatcher w m) evs = (s, tr)"
  shows "fst (add s cfg ex) = length (adds_of evs)
    \<and> (\<forall>k bt. batches s k = Some bt \<longrightarrow>
          (\<exists>ex0. timers s (timeout bt) = Some (k, ex0))
          \<and> sorted_wrt (<) (map promise (requests bt))
          \<and> (\<forall>r \<in> set (requests bt).
                promise r < length (adds_of evs) \<and> config r = fst (adds_of evs ! promise r)))
    \<and> (\<forall>h bt res. inflight s h = Some (bt, res) \<longrightarrow>
          sorted_wrt (<) (map promise (requests bt))
          \<and> (\<forall>r \<in> set (requests bt).
                promise r < length (adds_of evs) \<and> config r = fst (adds_of evs ! promise r)))
    \<and> (int (length (old_requests s (getBatchKey cfg))) + 1 < m \<longrightarrow>
          batches (fst (snd (add s cfg ex))) (getBatchKey cfg)
            = Some \<lparr>requests = old_requests s (getBatchKey cfg)
                                @ [\<lparr>config = cfg, promise = length (adds_of evs)\<rparr>],
                    timeout = group_handle s (getBatchKey cfg)\<rparr>
          \<and> snd (snd (add s cfg ex)) = [])
    \<and> (\<forall>k bt ev. batches s k = Some bt \<and> (\<forall>c e. ev = Add c e \<longrightarrow> getBatchKey c \<noteq> k)
            \<and> ev \<noteq> Fire (timeout bt) \<longrightarrow>
          batches (fst (step s ev)) k = Some bt)
    \<and> (m \<le> int (length (old_requests s (getBatchKey cfg))) + 1 \<longrightarrow>
          (\<forall>results. ex (map config (old_requests s (getBatchKey cfg)) @ [cfg]) = Fulfils results \<longrightarrow>
             snd (snd (add s cfg ex))
               = [Removed (getBatchKey cfg) (group_handle s (getBatchKey cfg)),
                  Invoked (group_handle s (getBatchKey cfg))
                    (map config (old_requests s (getBatchKey cfg)) @ [cfg])]
             \<and> inflight (fst (snd (add s cfg ex))) (group_handle s (getBatchKey cfg))
                 = Some (\<lparr>requests = old_requests s (getBatchKey cfg)
                                       @ [\<lparr>config = cfg, promise = length (adds_of evs)\<rparr>],
                          timeout = group_handle s (getBatchKey cfg)\<rparr>,
                         Inr results)))
    \<and> (\<forall>h k ex0. timers s h = Some (k, ex0) \<longrightarrow>
          (\<exists>bt. batches s k = Some bt \<and> timeout bt = h
             \<and> (\<forall>results. ex0 (map config (requests bt)) = Fulfils results \<longrightarrow>
                   snd (fire s h) = [Removed k h, Invoked h (map config (requests bt))]
                   \<and> inflight (fst (fire s h)) h = Some (bt, Inr results))))
    \<and> (\<forall>h bt results. inflight s h = Some (bt, Inr results) \<longrightarrow>
          snd (executeBatch_resumed s h)
            = map (\<lambda>i. Settled (promise (requests bt ! i))
                         (Resolved (if i < length results then Some (results ! i) else None)))
                [0..<length (requests bt)]
          \<and> inflight (fst (executeBatch_resumed s h)) h = None
          \<and> (\<exists>ex0 \<in> snd ` set (adds_of evs). ex0 (map config (requests bt)) = Fulfils results))
    \<and> (\<forall>h x ev. inflight s h = Some x \<and> ev \<noteq> Settle h \<longrightarrow>
          inflight (fst (step s ev)) h = Some x)"
proof -
  note r = reach_facts [OF reach]
  note h = r(1)
  have np: "nextPromise s = length (adds_of evs)"
    using h by (simp add: hist_ok_def)
  have c1: "fst (add s cfg ex) = length (adds_of evs)"
    by (simp add: add_promise np)
  have c2: "\<forall>k bt. batches s k = Some bt \<longrightarrow>
          (\<exists>ex0. timers s (timeout bt) = Some (k, ex0))
          \<and> sorted_wrt (<) (map promise (requests bt))
          \<and> (\<forall>r \<in> set (requests bt).
                promise r < length (adds_of evs) \<and> config r = fst (adds_of evs ! promise r))"
    using group_facts [OF h] by blast
  have c3: "\<forall>h bt res. inflight s h = Some (bt, res) \<longrightarrow>
          sorted_wrt (<) (map promise (requests bt))
          \<and> (\<forall>r \<in> set (requests bt).
                promise r < length (adds_of evs) \<and> config r = fst (adds_of evs ! promise r))"
    using inflight_facts [OF h] by blast
  have c4: "int (length (old_requests s (getBatchKey cfg))) + 1 < m \<longrightarrow>
          batches (fst (snd (add s cfg ex))) (getBatchKey cfg)
            = Some \<lparr>requests = old_requests s (getBatchKey cfg)
                                @ [\<lparr>config = cfg, promise = length (adds_of evs)\<rparr>],
                    timeout = group_handle s (getBatchKey cfg)\<rparr>
          \<and> snd (snd (add s cfg ex)) = []"
    using add_open [of s cfg ex] r(2) np by simp
  have c5: "\<forall>k bt ev. batches s k = Some bt \<and> (\<forall>c e. ev = Add c e \<longrightarrow> getBatchKey c \<noteq> k)
            \<and> ev \<noteq> Fire (timeout bt) \<longrightarrow>
          batches (fst (step s ev)) k = Some bt"
    using batches_frame [OF h] by blast
  have c6: "m \<le> int (length (old_requests s (getBatchKey cfg))) + 1 \<longrightarrow>
          (\<forall>results. ex (map config (old_requests s (getBatchKey cfg)) @ [cfg]) = Fulfils results \<longrightarrow>
             snd (snd (add s cfg ex))
               = [Removed (getBatchKey cfg) (group_handle s (getBatchKey cfg)),
                  Invoked (group_handle s (getBatchKey cfg))
                    (map config (old_requests s (getBatchKey cfg)) @ [cfg])]
             \<and> inflight (fst (snd (add s cfg ex))) (group_handle s (getBatchKey cfg))
                 = Some (\<lparr>requests = old_requests s (getBatchKey cfg)
                                       @ [\<lparr>config = cfg, promise = length (adds_of evs)\<rparr>],
                          timeout = group_handle s (getBatchKey cfg)\<rparr>,
                         Inr results))"
    using add_full [OF _ refl, of s cfg ex] r(2) np
    by (simp add: flush_effects_def thrown_def launched_def)
  have c7: "\<forall>h k ex0. timers s h = Some (k, ex0) \<longrightarrow>
          (\<exists>bt. batches s k = Some bt \<and> timeout bt = h
             \<and> (\<forall>results. ex0 (map config (requests bt)) = Fulfils results \<longrightarrow>
                   snd (fire s h) = [Removed k h, Invoked h (map config (requests bt))]
                   \<and> inflight (fst (fire s h)) h = Some (bt, Inr results)))"
  proof (intro allI impI)
    fix h0 k ex0
    assume "timers s h0 = Some (k, ex0)"
    from fire_reach [OF h this] obtain bt where
      "batches s k = Some bt" "timeout bt = h0"
      "fire s h0 = (flush_state s k bt (ex0 (map config (requests bt))),
                    flush_effects k bt (ex0 (map config (requests bt))))"
      by blast
    then show "\<exists>bt. batches s k = Some bt \<and> timeout bt = h0
             \<and> (\<forall>results. ex0 (map config (requests bt)) = Fulfils results \<longrightarrow>
                   snd (fire s h0) = [Removed k h0, Invoked h0 (map config (requests bt))]
                   \<and> inflight (fst (fire s h0)) h0 = Some (bt, Inr results))"
      by (auto simp: flush_effects_def thrown_def launched_def)
  qed
  have c8: "\<forall>h bt results. inflight s h = Some (bt, Inr results) \<longrightarrow>
          snd (executeBatch_resumed s h)
            = map (\<lambda>i. Settled (promise (requests bt ! i))
                         (Resolved (if i < length results then Some (results ! i) else None)))
                [0..<length (requests bt)]
          \<and> inflight (fst (executeBatch_resumed s h)) h = None
          \<and> (\<exists>ex0 \<in> snd ` set (adds_of evs). ex0 (map config (requests bt)) = Fulfils results)"
  proof (intro allI impI)
    fix h0 bt results
    assume e: "inflight s h0 = Some (bt, Inr results)"
    from inflight_facts [OF h e] have
      l: "launched (used_executor (adds_of evs) (maxBatchSize s) bt (map config (requests bt)))
            = Some (Inr results)"
      and u: "used_executor (adds_of evs) (maxBatchSize s) bt \<in> snd ` set (adds_of evs)"
      by simp_all
    from l have "used_executor (adds_of evs) (maxBatchSize s) bt (map config (requests bt))
        = Fulfils results"
      by (simp add: launched_def split: awaited.splits)
    with u have "\<exists>ex0 \<in> snd ` set (adds_of evs). ex0 (map config (requests bt)) = Fulfils results"
      by blast
    with resumed_some [OF e]
    show "snd (executeBatch_resumed s h0)
            = map (\<lambda>i. Settled (promise (requests bt ! i))
                         (Resolved (if i < length results then Some (results ! i) else None)))
                [0..<length (requests bt)]
          \<and> inflight (fst (executeBatch_resumed s h0)) h0 = None
          \<and> (\<exists>ex0 \<in> snd ` set (adds_of evs). ex0 (map config (requests bt)) = Fulfils results)"
      by (simp add: resolveAll_nth)
  qed
  have c9: "\<forall>h x ev. inflight s h = Some x \<and> ev \<noteq> Settle h \<longrightarrow>
          inflight (fst (step s ev)) h = Some x"
    using inflight_frame [OF h] by blast
  show ?thesis
    by (intro conjI; fact)
qed

theorem results_by_position_witness:
  "fst (add (state_after (take 1 example_events)) example_config4 failing_executor) = 1
   \<and> batches (fst (snd (add (state_after (take 1 example_events)) example_config4 failing_executor)))
       ''GET:/items''
       = Some \<lparr>requests = [\<lparr>config = example_config, promise = 0\<rparr>,
                            \<lparr>config = example_config4, promise = 1\<rparr>],
               timeout = 0\<rparr>
   \<and> example_executor [example_config, example_config4, example_config] = Fulfils [6, 13, 6]
   \<and> snd (snd (add (state_after (take 3 example_events)) example_config example_executor))
       = [Removed ''GET:/items'' 0, Invoked 0 [example_config, example_config4, example_config]]
   \<and> inflight (fst (snd (add (state_after (take 3 example_events)) example_config example_executor))) 0
       = Some (\<lparr>requests = [\<lparr>config = example_config, promise = 0\<rparr>,
                             \<lparr>config = example_config4, promise = 1\<rparr>,
                             \<lparr>config = example_config, promise = 3\<rparr>],
                timeout = 0\<rparr>, Inr [6, 13, 6])
   \<and> inflight (state_after (take 3 example_events @ [Add example_config example_executor])) 0
       = Some (\<lparr>requests = [\<lparr>config = example_config, promise = 0\<rparr>,
                             \<lparr>config = example_config4, promise = 1\<rparr>,
                             \<lparr>config = example_config, promise = 3\<rparr>],
                timeout = 0\<rparr>, Inr [6, 13, 6])
   \<and> snd (executeBatch_resumed
             (state_after (take 3 example_events @ [Add example_config example_executor])) 0)
       = [Settled 0 (Resolved (Some 6)), Settled 1 (Resolved (Some 13)),
          Settled 3 (Resolved (Some 6))]
   \<and> snd (fire (state_after (take 7 example_events)) 1)
       = [Removed ''GET:/users'' 1, Invoked 1 [example_config2]]
   \<and> inflight (fst (fire (state_after (take 7 example_events)) 1)) 1
       = Some (\<lparr>requests = [\<lparr>config = example_config2, promise = 2\<rparr>], timeout = 1\<rparr>, Inr [6])"
proof -
  let ?s1 = "state_after (take 1 example_events)"
  let ?s3 = "state_after (take 3 example_events)"
  let ?s4 = "state_after (take 3 example_events @ [Add example_config example_executor])"
  let ?s7 = "state_after (take 7 example_events)"
  note A = results_by_position [OF example_reach [of "take 1 example_events"],
      where cfg = example_config4 and ex = failing_executor]
  note B = results_by_position [OF example_reach [of "take 3 example_events"],
      where cfg = example_config and ex = example_executor]
  note C = results_by_position
      [OF example_reach [of "take 3 example_events @ [Add example_config example_executor]"],
      where cfg = example_config and ex = example_executor]
  note D = results_by_position [OF example_reach [of "take 7 example_events"],
      where cfg = example_config and ex = example_executor]
  have l1: "length (adds_of (take 1 example_events)) = 1"
    and l3: "length (adds_of (take 3 example_events)) = 3"
    by code_simp+
  have o1: "old_requests ?s1 ''GET:/items'' = [\<lparr>config = example_config, promise = 0\<rparr>]"
    and g1: "group_handle ?s1 ''GET:/items'' = 0"
    by code_simp+
  have o3: "old_requests ?s3 ''GET:/items''
      = [\<lparr>config = example_config, promise = 0\<rparr>, \<lparr>config = example_config4, promise = 1\<rparr>]"
    and g3: "group_handle ?s3 ''GET:/items'' = 0"
    by code_simp+
  have e3: "example_executor [example_config, example_config4, example_config] = Fulfils [6, 13, 6]"
    by code_simp
  have i4: "inflight ?s4 0
       = Some (\<lparr>requests = [\<lparr>config = example_config, promise = 0\<rparr>,
                             \<lparr>config = example_config4, promise = 1\<rparr>,
                             \<lparr>config = example_config, promise = 3\<rparr>],
                timeout = 0\<rparr>, Inr [6, 13, 6])"
    by code_simp
  have t7: "timers ?s7 1 \<noteq> None"
    and k7: "fst (the (timers ?s7 1)) = ''GET:/users''"
    and b7: "batches ?s7 ''GET:/users''
      = Some \<lparr>requests = [\<lparr>config = example_config2, promise = 2\<rparr>], timeout = 1\<rparr>"
    and e7: "snd (the (timers ?s7 1)) [example_config2] = Fulfils [6]"
    by code_simp+
  from t7 k7 have t7': "timers ?s7 1 = Some (''GET:/users'', snd (the (timers ?s7 1)))"
    by auto
  from A [THEN conjunct1] l1 have a1: "fst (add ?s1 example_config4 failing_executor) = 1"
    by simp
  from A [THEN conjunct2, THEN conjunct2, THEN conjunct2, THEN conjunct1] l1 o1 g1
  have a2: "batches (fst (snd (add ?s1 example_config4 failing_executor))) ''GET:/items''
       = Some \<lparr>requests = [\<lparr>config = example_config, promise = 0\<rparr>,
                            \<lparr>config = example_config4, promise = 1\<rparr>],
               timeout = 0\<rparr>"
    by (simp add: example_keys)
  from B [THEN conjunct2, THEN conjunct2, THEN conjunct2, THEN conjunct2, THEN conjunct2,
      THEN conjunct1] e3 l3 o3 g3
  have b1:
    "snd (snd (add ?s3 example_config example_executor))
       = [Removed ''GET:/items'' 0, Invoked 0 [example_config, example_config4, example_config]]
     \<and> inflight (fst (snd (add ?s3 example_config example_executor))) 0
       = Some (\<lparr>requests = [\<lparr>config = example_config, promise = 0\<rparr>,
                             \<lparr>config = example_config4, promise = 1\<rparr>,
                             \<lparr>config = example_config, promise = 3\<rparr>],
                timeout = 0\<rparr>, Inr [6, 13, 6])"
    by (simp add: example_keys)
  from C [THEN conjunct2, THEN conjunct2, THEN conjunct2, THEN conjunct2, THEN conjunct2,
      THEN conjunct2, THEN conjunct2, THEN conjunct1, rule_format, OF i4]
  have c1: "snd (executeBatch_resumed ?s4 0)
       = [Settled 0 (Resolved (Some 6)), Settled 1 (Resolved (Some 13)),
          Settled 3 (Resolved (Some 6))]"
    by (simp add: upt_rec)
  from D [THEN conjunct2, THEN conjunct2, THEN conjunct2, THEN conjunct2, THEN conjunct2,
      THEN conjunct2, THEN conjunct1, rule_format, OF t7'] b7 e7
  have d1: "snd (fire ?s7 1)
       = [Removed ''GET:/users'' 1, Invoked 1 [example_config2]]
     \<and> inflight (fst (fire ?s7 1)) 1
       = Some (\<lparr>requests = [\<lparr>config = example_config2, promise = 2\<rparr>], timeout = 1\<rparr>, Inr [6])"
    by fastforce
  from a1 a2 e3 b1 i4 c1 d1 show ?thesis
    by simp
qed

subsection \<open>Failure of the executor\<close>

text \<open>
  C6: let \<open>s\<close> be the batcher after any run of \<open>add\<close> calls, timer firings and settled
  executor promises on a new batcher. When the timer of a group fires, or a call of \<open>add\<close>
  reaches \<open>maxBatchSize\<close>, and the call of the executor throws the error \<open>e\<close>, then every
  request of the group, the new one included, is rejected with \<open>e\<close> at once, in the order
  of the group, and nothing is left suspended. When the executor returns a promise that
  is rejected with \<open>e\<close>, the suspended execution holds the whole group together with
  \<open>e\<close>, no other step touches it, and when it resumes every request of the group is
  rejected with \<open>e\<close> and none is resolved; \<open>e\<close> is the error with which an executor given
  to \<open>add\<close> was rejected on the configurations of the batch.
\<close>

theorem failure_rejects_all:
  assumes reach: "run (new_RequestBatcher w m) evs = (s, tr)"
  shows "(\<forall>h k ex0. timers s h = Some (k, ex0) \<longrightarrow>
          (\<exists>bt. batches s k = Some bt \<and> timeout bt = h \<and> requests bt \<noteq> []
             \<and> (\<forall>e. ex0 (map config (requests bt)) = Throws e \<longrightarrow>
                   snd (fire s h)
                     = [Removed k h, Invoked h (map config (requests bt))]
                         @ map (\<lambda>r. Settled (promise r) (Rejected e)) (requests bt)
                   \<and> inflight (fst (fire s h)) = inflight s)
             \<and> (\<forall>e. ex0 (map config (requests bt)) = Rejects e \<longrightarrow>
                   snd (fire s h) = [Removed k h, Invoked h (map config (requests bt))]
                   \<and> inflight (fst (fire s h)) h = Some (bt, Inl e))))
    \<and> (m \<le> int (length (old_requests s (getBatchKey cfg))) + 1 \<longrightarrow>
          (\<forall>e. ex (map config (old_requests s (getBatchKey cfg)) @ [cfg]) = Throws e \<longrightarrow>
             snd (snd (add s cfg ex))
               = [Removed (getBatchKey cfg) (group_handle s (getBatchKey cfg)),
                  Invoked (group_handle s (getBatchKey cfg))
                    (map config (old_requests s (getBatchKey cfg)) @ [cfg])]
                   @ map (\<lambda>r. Settled (promise r) (Rejected e))
                       (old_requests s (getBatchKey cfg)
                          @ [\<lparr>config = cfg, promise = length (adds_of evs)\<rparr>])
             \<and> inflight (fst (snd (add s cfg ex))) = inflight s)
          \<and> (\<forall>e. ex (map config (old_requests s (getBatchKey cfg)) @ [cfg]) = Rejects e \<longrightarrow>
             snd (snd (add s cfg ex))
               = [Removed (getBatchKey cfg) (group_handle s (getBatchKey cfg)),
                  Invoked (group_handle s (getBatchKey cfg))
                    (map config (old_requests s (getBatchKey cfg)) @ [cfg])]
             \<and> inflight (fst (snd (add s cfg ex))) (group_handle s (getBatchKey cfg))
                 = Some (\<lparr>requests = old_requests s (getBatchKey cfg)
                                       @ [\<lparr>config = cfg, promise = length (adds_of evs)\<rparr>],
                          timeout = group_handle s (getBatchKey cfg)\<rparr>,
                         Inl e)))
    \<and> (\<forall>h bt e. inflight s h = Some (bt, Inl e) \<longrightarrow>
          requests bt \<noteq> []
          \<and> snd (executeBatch_resumed s h)
              = map (\<lambda>r. Settled (promise r) (Rejected e)) (requests bt)
          \<and> inflight (fst (executeBatch_resumed s h)) h = None
          \<and> (\<exists>ex0 \<in> snd ` set (adds_of evs). ex0 (map config (requests bt)) = Rejects e))
    \<and> (\<forall>h x ev. inflight s h = Some x \<and> ev \<noteq> Settle h \<longrightarrow>
          inflight (fst (step s ev)) h = Some x)"
proof -
  note r = reach_facts [OF reach]
  note h = r(1)
  have np: "nextPromise s = length (adds_of evs)"
    using h by (simp add: hist_ok_def)
  have c1: "\<forall>h k ex0. timers s h = Some (k, ex0) \<longrightarrow>
          (\<exists>bt. batches s k = Some bt \<and> timeout bt = h \<and> requests bt \<noteq> []
             \<and> (\<forall>e. ex0 (map config (requests bt)) = Throws e \<longrightarrow>
                   snd (fire s h)
                     = [Removed k h, Invoked h (map config (requests bt))]
                         @ map (\<lambda>r. Settled (promise r) (Rejected e)) (requests bt)
                   \<and> inflight (fst (fire s h)) = inflight s)
             \<and> (\<forall>e. ex0 (map config (requests bt)) = Rejects e \<longrightarrow>
                   snd (fire s h) = [Removed k h, Invoked h (map config (requests bt))]
                   \<and> inflight (fst (fire s h)) h = Some (bt, Inl e)))"
  proof (intro allI impI)
    fix h0 k ex0
    assume "timers s h0 = Some (k, ex0)"
    from fire_reach [OF h this] obtain bt where
      "batches s k = Some bt" "timeout bt = h0" "group_ok (adds_of evs) k bt"
      "fire s h0 = (flush_state s k bt (ex0 (map config (requests bt))),
                    flush_effects k bt (ex0 (map config (requests bt))))"
      by blast
    then show "\<exists>bt. batches s k = Some bt \<and> timeout bt = h0 \<and> requests bt \<noteq> []
             \<and> (\<forall>e. ex0 (map config (requests bt)) = Throws e \<longrightarrow>
                   snd (fire s h0)
                     = [Removed k h0, Invoked h0 (map config (requests bt))]
                         @ map (\<lambda>r. Settled (promise r) (Rejected e)) (requests bt)
                   \<and> inflight (fst (fire s h0)) = inflight s)
             \<and> (\<forall>e. ex0 (map config (requests bt)) = Rejects e \<longrightarrow>
                   snd (fire s h0) = [Removed k h0, Invoked h0 (map config (requests bt))]
                   \<and> inflight (fst (fire s h0)) h0 = Some (bt, Inl e))"
      by (auto simp: flush_effects_def thrown_def launched_def rejectAll_def group_ok_def)
  qed
  have c2: "m \<le> int (length (old_requests s (getBatchKey cfg))) + 1 \<longrightarrow>
          (\<forall>e. ex (map config (old_requests s (getBatchKey cfg)) @ [cfg]) = Throws e \<longrightarrow>
             snd (snd (add s cfg ex))
               = [Removed (getBatchKey cfg) (group_handle s (getBatchKey cfg)),
                  Invoked (group_handle s (getBatchKey cfg))
                    (map config (old_requests s (getBatchKey cfg)) @ [cfg])]
                   @ map (\<lambda>r. Settled (promise r) (Rejected e))
                       (old_requests s (getBatchKey cfg)
                          @ [\<lparr>config = cfg, promise = length (adds_of evs)\<rparr>])
             \<and> inflight (fst (snd (add s cfg ex))) = inflight s)
          \<and> (\<forall>e. ex (map config (old_requests s (getBatchKey cfg)) @ [cfg]) = Rejects e \<longrightarrow>
             snd (snd (add s cfg ex))
               = [Removed (getBatchKey cfg) (group_handle s (getBatchKey cfg)),
                  Invoked (group_handle s (getBatchKey cfg))
                    (map config (old_requests s (getBatchKey cfg)) @ [cfg])]
             \<and> inflight (fst (snd (add s cfg ex))) (group_handle s (getBatchKey cfg))
                 = Some (\<lparr>requests = old_requests s (getBatchKey cfg)
                                       @ [\<lparr>config = cfg, promise = length (adds_of evs)\<rparr>],
                          timeout = group_handle s (getBatchKey cfg)\<rparr>,
                         Inl e))"
    using add_full [OF _ refl, of s cfg ex] r(2) np
    by (simp add: flush_effects_def thrown_def launched_def rejectAll_def)
  have c3: "\<forall>h bt e. inflight s h = Some (bt, Inl e) \<longrightarrow>
          requests bt \<noteq> []
          \<and> snd (executeBatch_resumed s h)
              = map (\<lambda>r. Settled (promise r) (Rejected e)) (requests bt)
          \<and> inflight (fst (executeBatch_resumed s h)) h = None
          \<and> (\<exists>ex0 \<in> snd ` set (adds_of evs). ex0 (map config (requests bt)) = Rejects e)"
  proof (intro allI impI)
    fix h0 bt e
    assume e: "inflight s h0 = Some (bt, Inl e)"
    from inflight_facts [OF h e] have
      l: "launched (used_executor (adds_of evs) (maxBatchSize s) bt (map config (requests bt)))
            = Some (Inl e)"
      and u: "used_executor (adds_of evs) (maxBatchSize s) bt \<in> snd ` set (adds_of evs)"
      and n: "requests bt \<noteq> []"
      by simp_all
    from l have "used_executor (adds_of evs) (maxBatchSize s) bt (map config (requests bt))
        = Rejects e"
      by (simp add: launched_def split: awaited.splits)
    with u have "\<exists>ex0 \<in> snd ` set (adds_of evs). ex0 (map config (requests bt)) = Rejects e"
      by blast
    with resumed_some [OF e] n
    show "requests bt \<noteq> []
          \<and> snd (executeBatch_resumed s h0)
              = map (\<lambda>r. Settled (promise r) (Rejected e)) (requests bt)
          \<and> inflight (fst (executeBatch_resumed s h0)) h0 = None
          \<and> (\<exists>ex0 \<in> snd ` set (adds_of evs). ex0 (map config (requests bt)) = Rejects e)"
      by (simp add: rejectAll_def)
  qed
  have c4: "\<forall>h x ev. inflight s h = Some x \<and> ev \<noteq> Settle h \<longrightarrow>
          inflight (fst (step s ev)) h = Some x"
    using inflight_frame [OF h] by blast
  show ?thesis
    by (intro conjI; fact)
qed

theorem failure_rejects_all_witness:
  "throwing_executor [example_config, example_config4, example_config] = Throws ''no route''
   \<and> snd (snd (add (state_after (take 3 example_events)) example_config throwing_executor))
       = [Removed ''GET:/items'' 0, Invoked 0 [example_config, example_config4, example_config],
          Settled 0 (Rejected ''no route''), Settled 1 (Rejected ''no route''),
          Settled 3 (Rejected ''no route'')]
   \<and> snd (fire (state_after (take 10 example_events)) 2)
       = [Removed ''GET:/items'' 2, Invoked 2 [example_config, example_config4]]
   \<and> inflight (fst (fire (state_after (take 10 example_events)) 2)) 2
       = Some (\<lparr>requests = [\<lparr>config = example_config, promise = 4\<rparr>,
                             \<lparr>config = example_config4, promise = 5\<rparr>],
                timeout = 2\<rparr>, Inl ''upstream failed'')
   \<and> inflight (state_after (take 11 example_events)) 2
       = Some (\<lparr>requests = [\<lparr>config = example_config, promise = 4\<rparr>,
                             \<lparr>config = example_config4, promise = 5\<rparr>],
                timeout = 2\<rparr>, Inl ''upstream failed'')
   \<and> snd (executeBatch_resumed (state_after (take 11 example_events)) 2)
       = [Settled 4 (Rejected ''upstream failed''), Settled 5 (Rejected ''upstream failed'')]
   \<and> inflight (fst (step (state_after (take 11 example_events))
                        (Add example_config example_executor))) 2
       = Some (\<lparr>requests = [\<lparr>config = example_config, promise = 4\<rparr>,
                             \<lparr>config = example_config4, promise = 5\<rparr>],
                timeout = 2\<rparr>, Inl ''upstream failed'')"
proof -
  let ?s3 = "state_after (take 3 example_events)"
  let ?s10 = "state_after (take 10 example_events)"
  let ?s11 = "state_after (take 11 example_events)"
  note A = failure_rejects_all [OF example_reach [of "take 3 example_events"],
      where cfg = example_config and ex = throwing_executor]
  note B = failure_rejects_all [OF example_reach [of "take 10 example_events"],
      where cfg = example_config and ex = throwing_executor]
  note C = failure_rejects_all [OF example_reach [of "take 11 example_events"],
      where cfg = example_config and ex = throwing_executor]
  from example_state10(1,2)
  have t10: "timers ?s10 2 = Some (''GET:/items'', snd (the (timers ?s10 2)))"
    by auto
  from A [THEN conjunct2, THEN conjunct1] example_throws example_state3
  have a1: "snd (snd (add ?s3 example_config throwing_executor))
       = [Removed ''GET:/items'' 0, Invoked 0 [example_config, example_config4, example_config],
          Settled 0 (Rejected ''no route''), Settled 1 (Rejected ''no route''),
          Settled 3 (Rejected ''no route'')]"
    by (simp add: example_keys)
  from B [THEN conjunct1, rule_format, OF t10] example_state10(3,4)
  have b1: "snd (fire ?s10 2)
       = [Removed ''GET:/items'' 2, Invoked 2 [example_config, example_config4]]
     \<and> inflight (fst (fire ?s10 2)) 2
       = Some (\<lparr>requests = [\<lparr>config = example_config, promise = 4\<rparr>,
                             \<lparr>config = example_config4, promise = 5\<rparr>],
                timeout = 2\<rparr>, Inl ''upstream failed'')"
    by fastforce
  from C [THEN conjunct2, THEN conjunct2, THEN conjunct1, rule_format, OF example_state11(1)]
  have c1: "snd (executeBatch_resumed ?s11 2)
       = [Settled 4 (Rejected ''upstream failed''), Settled 5 (Rejected ''upstream failed'')]"
    by simp
  from C [THEN conjunct2, THEN conjunct2, THEN conjunct2, rule_format,
      of 2 _ "Add example_config example_executor"] example_state11(1)
  have c2: "inflight (fst (step ?s11 (Add example_config example_executor))) 2
       = Some (\<lparr>requests = [\<lparr>config = example_config, promise = 4\<rparr>,
                             \<lparr>config = example_config4, promise = 5\<rparr>],
                timeout = 2\<rparr>, Inl ''upstream failed'')"
    by simp
  from example_throws a1 b1 example_state11(1) c1 c2 show ?thesis
    by simp
qed

subsection \<open>The executor of a flush\<close>

text \<open>
  C9: let \<open>s\<close> be the batcher after any run of \<open>add\<close> calls, timer firings and settled
  executor promises on a new batcher, and \<open>adds_of evs\<close> the calls of \<open>add\<close> of that run.
  Every armed timer belongs to a group of the map, and the executor it holds is the one
  given to the call of \<open>add\<close> that enqueued the first request of that group, which is the
  earliest call among the requests of the group; when the timer fires, the flush is the
  one that this executor gives on the configurations of the group. A call of \<open>add\<close> for a
  key without a group opens the group and arms its timer with the executor of that call.
  A call of \<open>add\<close> for a key with a group that stays below \<open>maxBatchSize\<close> only pushes its
  request: its executor is not called and no timer is changed. A call that reaches
  \<open>maxBatchSize\<close> flushes the group with its own executor. Every suspended execution was
  started with the executor of the first request of its batch when the batch is below
  \<open>maxBatchSize\<close> (a flush by the timer), and with the executor of the last request
  otherwise (a flush by size).
\<close>

theorem timer_flush_uses_first_executor:
  assumes reach: "run (new_RequestBatcher w m) evs = (s, tr)"
  shows "(\<forall>h k ex0. timers s h = Some (k, ex0) \<longrightarrow>
          (\<exists>bt. batches s k = Some bt \<and> timeout bt = h \<and> requests bt \<noteq> []
             \<and> (\<forall>r \<in> set (requests bt). promise (hd (requests bt)) \<le> promise r)
             \<and> promise (hd (requests bt)) < length (adds_of evs)
             \<and> adds_of evs ! promise (hd (requests bt)) = (config (hd (requests bt)), ex0)
             \<and> fire s h = (flush_state s k bt (ex0 (map config (requests bt))),
                           flush_effects k bt (ex0 (map config (requests bt))))))
    \<and> (batches s (getBatchKey cfg) = None \<and> 1 < m \<longrightarrow>
          add s cfg ex =
            (length (adds_of evs),
             s\<lparr>nextPromise := nextPromise s + 1,
               timers := (timers s)(nextTimer s \<mapsto> (getBatchKey cfg, ex)),
               nextTimer := nextTimer s + 1,
               batches := (batches s)(getBatchKey cfg \<mapsto>
                 \<lparr>requests = [\<lparr>config = cfg, promise = length (adds_of evs)\<rparr>],
                  timeout = nextTimer s\<rparr>)\<rparr>,
             []))
    \<and> (\<forall>bt. batches s (getBatchKey cfg) = Some bt \<and> int (length (requests bt)) + 1 < m \<longrightarrow>
          add s cfg ex =
            (length (adds_of evs),
             s\<lparr>nextPromise := nextPromise s + 1,
               batches := (batches s)(getBatchKey cfg \<mapsto>
                 bt\<lparr>requests := requests bt @ [\<lparr>config = cfg, promise = length (adds_of evs)\<rparr>]\<rparr>)\<rparr>,
             []))
    \<and> (\<forall>bt. batches s (getBatchKey cfg) = Some bt \<and> m \<le> int (length (requests bt)) + 1 \<longrightarrow>
          add s cfg ex =
            (length (adds_of evs),
             flush_state (s\<lparr>nextPromise := nextPromise s + 1\<rparr>) (getBatchKey cfg)
               (bt\<lparr>requests := requests bt @ [\<lparr>config = cfg, promise = length (adds_of evs)\<rparr>]\<rparr>)
               (ex (map config (requests bt) @ [cfg])),
             flush_effects (getBatchKey cfg)
               (bt\<lparr>requests := requests bt @ [\<lparr>config = cfg, promise = length (adds_of evs)\<rparr>]\<rparr>)
               (ex (map config (requests bt) @ [cfg]))))
    \<and> (\<forall>h bt res. inflight s h = Some (bt, res) \<longrightarrow>
          requests bt \<noteq> []
          \<and> promise (hd (requests bt)) < length (adds_of evs)
          \<and> promise (last (requests bt)) < length (adds_of evs)
          \<and> launched
              ((if int (length (requests bt)) < m
                then snd (adds_of evs ! promise (hd (requests bt)))
                else snd (adds_of evs ! promise (last (requests bt))))
                 (map config (requests bt)))
              = Some res)"
proof -
  note r = reach_facts [OF reach]
  note h = r(1)
  have np: "nextPromise s = length (adds_of evs)"
    using h by (simp add: hist_ok_def)
  have c1: "\<forall>h k ex0. timers s h = Some (k, ex0) \<longrightarrow>
          (\<exists>bt. batches s k = Some bt \<and> timeout bt = h \<and> requests bt \<noteq> []
             \<and> (\<forall>r \<in> set (requests bt). promise (hd (requests bt)) \<le> promise r)
             \<and> promise (hd (requests bt)) < length (adds_of evs)
             \<and> adds_of evs ! promise (hd (requests bt)) = (config (hd (requests bt)), ex0)
             \<and> fire s h = (flush_state s k bt (ex0 (map config (requests bt))),
                           flush_effects k bt (ex0 (map config (requests bt)))))"
  proof (intro allI impI)
    fix h0 k ex0
    assume "timers s h0 = Some (k, ex0)"
    from fire_reach [OF h this] obtain bt where
      bt: "batches s k = Some bt" "timeout bt = h0" "group_ok (adds_of evs) k bt"
        "ex0 = first_executor (adds_of evs) bt"
        "fire s h0 = (flush_state s k bt (ex0 (map config (requests bt))),
                      flush_effects k bt (ex0 (map config (requests bt))))"
      by blast
    from bt(3) have n: "requests bt \<noteq> []"
      and s: "sorted_wrt (<) (map promise (requests bt))"
      and a: "\<forall>r \<in> set (requests bt).
                promise r < length (adds_of evs) \<and> config r = fst (adds_of evs ! promise r)"
      by (simp_all add: group_ok_def)
    from n have m: "hd (requests bt) \<in> set (requests bt)"
      by simp
    have "\<forall>r \<in> set (requests bt). promise (hd (requests bt)) \<le> promise r"
      using n s by (cases "requests bt") auto
    moreover have "adds_of evs ! promise (hd (requests bt)) = (config (hd (requests bt)), ex0)"
      using a m bt(4) by (simp add: first_executor_def prod_eq_iff)
    ultimately show "\<exists>bt. batches s k = Some bt \<and> timeout bt = h0 \<and> requests bt \<noteq> []
             \<and> (\<forall>r \<in> set (requests bt). promise (hd (requests bt)) \<le> promise r)
             \<and> promise (hd (requests bt)) < length (adds_of evs)
             \<and> adds_of evs ! promise (hd (requests bt)) = (config (hd (requests bt)), ex0)
             \<and> fire s h0 = (flush_state s k bt (ex0 (map config (requests bt))),
                            flush_effects k bt (ex0 (map config (requests bt))))"
      using bt n a m by blast
  qed
  have c2: "batches s (getBatchKey cfg) = None \<and> 1 < m \<longrightarrow>
          add s cfg ex =
            (length (adds_of evs),
             s\<lparr>nextPromise := nextPromise s + 1,
               timers := (timers s)(nextTimer s \<mapsto> (getBatchKey cfg, ex)),
               nextTimer := nextTimer s + 1,
               batches := (batches s)(getBatchKey cfg \<mapsto>
                 \<lparr>requests = [\<lparr>config = cfg, promise = length (adds_of evs)\<rparr>],
                  timeout = nextTimer s\<rparr>)\<rparr>,
             [])"
    using add_new_open [of s cfg ex] r(2) np by simp
  have c3: "\<forall>bt. batches s (getBatchKey cfg) = Some bt \<and> int (length (requests bt)) + 1 < m \<longrightarrow>
          add s cfg ex =
            (length (adds_of evs),
             s\<lparr>nextPromise := nextPromise s + 1,
               batches := (batches s)(getBatchKey cfg \<mapsto>
                 bt\<lparr>requests := requests bt @ [\<lparr>config = cfg, promise = length (adds_of evs)\<rparr>]\<rparr>)\<rparr>,
             [])"
    using add_old_open [of s cfg _ ex] r(2) np by simp
  have c4: "\<forall>bt. batches s (getBatchKey cfg) = Some bt \<and> m \<le> int (length (requests bt)) + 1 \<longrightarrow>
          add s cfg ex =
            (length (adds_of evs),
             flush_state (s\<lparr>nextPromise := nextPromise s + 1\<rparr>) (getBatchKey cfg)
               (bt\<lparr>requests := requests bt @ [\<lparr>config = cfg, promise = length (adds_of evs)\<rparr>]\<rparr>)
               (ex (map config (requests bt) @ [cfg])),
             flush_effects (getBatchKey cfg)
               (bt\<lparr>requests := requests bt @ [\<lparr>config = cfg, promise = length (adds_of evs)\<rparr>]\<rparr>)
               (ex (map config (requests bt) @ [cfg])))"
    using add_old_full [OF _ _ refl, of s cfg _ ex] r(2) np by simp
  have c5: "\<forall>h bt res. inflight s h = Some (bt, res) \<longrightarrow>
          requests bt \<noteq> []
          \<and> promise (hd (requests bt)) < length (adds_of evs)
          \<and> promise (last (requests bt)) < length (adds_of evs)
          \<and> launched
              ((if int (length (requests bt)) < m
                then snd (adds_of evs ! promise (hd (requests bt)))
                else snd (adds_of evs ! promise (last (requests bt))))
                 (map config (requests bt)))
              = Some res"
  proof (intro allI impI)
    fix h0 bt res
    assume e: "inflight s h0 = Some (bt, res)"
    note f = inflight_facts [OF h e]
    from f have n: "requests bt \<noteq> []"
      by simp
    then have "hd (requests bt) \<in> set (requests bt)" "last (requests bt) \<in> set (requests bt)"
      by simp_all
    with f have "promise (hd (requests bt)) < length (adds_of evs)"
      "promise (last (requests bt)) < length (adds_of evs)"
      by blast+
    moreover from f have
      "launched (used_executor (adds_of evs) m bt (map config (requests bt))) = Some res"
      by (simp add: r(2))
    ultimately show "requests bt \<noteq> []
          \<and> promise (hd (requests bt)) < length (adds_of evs)
          \<and> promise (last (requests bt)) < length (adds_of evs)
          \<and> launched
              ((if int (length (requests bt)) < m
                then snd (adds_of evs ! promise (hd (requests bt)))
                else snd (adds_of evs ! promise (last (requests bt))))
                 (map config (requests bt)))
              = Some res"
      using n by (simp add: used_executor_def)
  qed
  show ?thesis
    by (intro conjI; fact)
qed

theorem timer_flush_uses_first_executor_witness:
  "adds_of (take 10 example_events) ! 4 = (example_config, failing_executor)
   \<and> snd (the (timers (state_after (take 10 example_events)) 2)) = failing_executor
   \<and> snd (fire (state_after (take 10 example_events)) 2)
       = [Removed ''GET:/items'' 2, Invoked 2 [example_config, example_config4]]
   \<and> timers (fst (snd (add (state_after (take 5 example_events)) example_config failing_executor))) 2
       = Some (''GET:/items'', failing_executor)
   \<and> timers (fst (snd (add (state_after (take 9 example_events)) example_config4 example_executor)))
       = timers (state_after (take 9 example_events))
   \<and> snd (snd (add (state_after (take 9 example_events)) example_config4 example_executor)) = []
   \<and> snd (snd (add (state_after (take 3 example_events)) example_config throwing_executor))
       = [Removed ''GET:/items'' 0, Invoked 0 [example_config, example_config4, example_config],
          Settled 0 (Rejected ''no route''), Settled 1 (Rejected ''no route''),
          Settled 3 (Rejected ''no route'')]"
proof -
  let ?s3 = "state_after (take 3 example_events)"
  let ?s5 = "state_after (take 5 example_events)"
  let ?s9 = "state_after (take 9 example_events)"
  let ?s10 = "state_after (take 10 example_events)"
  note A = timer_flush_uses_first_executor [OF example_reach [of "take 10 example_events"],
      where cfg = example_config and ex = failing_executor]
  note B = timer_flush_uses_first_executor [OF example_reach [of "take 5 example_events"],
      where cfg = example_config and ex = failing_executor]
  note C = timer_flush_uses_first_executor [OF example_reach [of "take 9 example_events"],
      where cfg = example_config4 and ex = example_executor]
  note D = timer_flush_uses_first_executor [OF example_reach [of "take 3 example_events"],
      where cfg = example_config and ex = throwing_executor]
  from example_state10(1,2)
  have t10: "timers ?s10 2 = Some (''GET:/items'', snd (the (timers ?s10 2)))"
    by auto
  from A [THEN conjunct1, rule_format, OF t10] example_state10(3) example_adds4
  have a1: "snd (the (timers ?s10 2)) = failing_executor
     \<and> fire ?s10 2
        = (flush_state ?s10 ''GET:/items''
             \<lparr>requests = [\<lparr>config = example_config, promise = 4\<rparr>,
                          \<lparr>config = example_config4, promise = 5\<rparr>],
              timeout = 2\<rparr>
             (snd (the (timers ?s10 2)) [example_config, example_config4]),
           flush_effects ''GET:/items''
             \<lparr>requests = [\<lparr>config = example_config, promise = 4\<rparr>,
                          \<lparr>config = example_config4, promise = 5\<rparr>],
              timeout = 2\<rparr>
             (snd (the (timers ?s10 2)) [example_config, example_config4]))"
    by fastforce
  then have a2: "snd (fire ?s10 2)
       = [Removed ''GET:/items'' 2, Invoked 2 [example_config, example_config4]]"
    by (simp add: flush_effects_def thrown_def failing_executor_def)
  from B [THEN conjunct2, THEN conjunct1] example_state5
  have b1: "timers (fst (snd (add ?s5 example_config failing_executor))) 2
       = Some (''GET:/items'', failing_executor)"
    by (simp add: example_keys)
  from C [THEN conjunct2, THEN conjunct2, THEN conjunct1] example_state9
  have c1: "timers (fst (snd (add ?s9 example_config4 example_executor))) = timers ?s9
     \<and> snd (snd (add ?s9 example_config4 example_executor)) = []"
    by (simp add: example_keys)
  from D [THEN conjunct2, THEN conjunct2, THEN conjunct2, THEN conjunct1]
    example_state3(1,4)
  have d1: "snd (snd (add ?s3 example_config throwing_executor))
       = [Removed ''GET:/items'' 0, Invoked 0 [example_config, example_config4, example_config],
          Settled 0 (Rejected ''no route''), Settled 1 (Rejected ''no route''),
          Settled 3 (Rejected ''no route'')]"
    by (simp add: example_keys flush_effects_def thrown_def rejectAll_def throwing_executor_def)
  from example_adds4 a1 a2 b1 c1 d1 show ?thesis
    by simp
qed

subsection \<open>A group is flushed once\<close>

text \<open>
  C7: let \<open>s\<close> be the batcher and \<open>tr\<close> the effects after any run of \<open>add\<close> calls, timer
  firings and settled executor promises on a new batcher. No executor is called twice for
  the same group. Every call of an executor comes right after the removal of its group
  from the map. For every group whose executor was called, and for every group that a
  suspended execution holds, the timer is not armed, firing it does nothing and no group
  in the map has its handle. Every group in the map is below \<open>maxBatchSize\<close>, has its
  timer armed under a handle that \<open>setTimeout\<close> has given out, and was never flushed. A call of \<open>add\<close> flushes exactly when it reaches
  \<open>maxBatchSize\<close>; the flush removes the group from the map, calls the executor and
  clears the timer, which then fires in vain. A timer that fires removes its group,
  calls the executor and is no longer armed. After either flush the key has no group; a
  call of \<open>add\<close> for a key without a group, also while executions are suspended, opens a
  group with a new handle that no flushed or suspended group has, and leaves the
  suspended executions as they are.
\<close>

theorem group_flushed_at_most_once:
  assumes reach: "run (new_RequestBatcher w m) evs = (s, tr)"
  shows "distinct (invoked_handles tr)
    \<and> (\<forall>i h configs. i < length tr \<and> tr ! i = Invoked h configs \<longrightarrow>
          0 < i \<and> (\<exists>k. tr ! (i - 1) = Removed k h))
    \<and> (\<forall>h \<in> set (invoked_handles tr).
          h < nextTimer s \<and> timers s h = None \<and> fire s h = (s, [])
          \<and> (\<forall>k bt. batches s k = Some bt \<longrightarrow> timeout bt \<noteq> h))
    \<and> (\<forall>h bt res. inflight s h = Some (bt, res) \<longrightarrow>
          timeout bt = h \<and> h < nextTimer s \<and> timers s h = None \<and> fire s h = (s, [])
          \<and> (\<forall>k bt'. batches s k = Some bt' \<longrightarrow> timeout bt' \<noteq> h))
    \<and> (\<forall>k bt. batches s k = Some bt \<longrightarrow>
          int (length (requests bt)) < m
          \<and> (\<exists>ex0. timers s (timeout bt) = Some (k, ex0))
          \<and> timeout bt < nextTimer s
          \<and> timeout bt \<notin> set (invoked_handles tr))
    \<and> (snd (snd (add s cfg ex)) = [] \<longleftrightarrow> int (length (old_requests s (getBatchKey cfg))) + 1 < m)
    \<and> (m \<le> int (length (old_requests s (getBatchKey cfg))) + 1 \<longrightarrow>
          take 2 (snd (snd (add s cfg ex)))
            = [Removed (getBatchKey cfg) (group_handle s (getBatchKey cfg)),
               Invoked (group_handle s (getBatchKey cfg))
                 (map config (old_requests s (getBatchKey cfg)) @ [cfg])]
          \<and> batches (fst (snd (add s cfg ex))) = (batches s)(getBatchKey cfg := None)
          \<and> timers (fst (snd (add s cfg ex))) = (timers s)(group_handle s (getBatchKey cfg) := None)
          \<and> fire (fst (snd (add s cfg ex))) (group_handle s (getBatchKey cfg))
              = (fst (snd (add s cfg ex)), []))
    \<and> (\<forall>h k ex0. timers s h = Some (k, ex0) \<longrightarrow>
          (\<exists>bt. batches s k = Some bt \<and> timeout bt = h
             \<and> take 2 (snd (fire s h)) = [Removed k h, Invoked h (map config (requests bt))]
             \<and> batches (fst (fire s h)) = (batches s)(k := None)
             \<and> timers (fst (fire s h)) = (timers s)(h := None)
             \<and> fire (fst (fire s h)) h = (fst (fire s h), [])))
    \<and> (batches s (getBatchKey cfg) = None \<and> 1 < m \<longrightarrow>
          batches (fst (snd (add s cfg ex)))
            = (batches s)(getBatchKey cfg \<mapsto>
                 \<lparr>requests = [\<lparr>config = cfg, promise = length (adds_of evs)\<rparr>],
                  timeout = nextTimer s\<rparr>)
          \<and> timers (fst (snd (add s cfg ex)))
              = (timers s)(nextTimer s \<mapsto> (getBatchKey cfg, ex))
          \<and> inflight (fst (snd (add s cfg ex))) = inflight s
          \<and> inflight s (nextTimer s) = None
          \<and> nextTimer s \<notin> set (invoked_handles tr))"
proof -
  note r = reach_facts [OF reach]
  note h = r(1)
  from h have ok: "batcher_ok s" and np: "nextPromise s = length (adds_of evs)"
    by (simp_all add: hist_ok_def)
  have c1: "distinct (invoked_handles tr)"
    by (rule r(3))
  have c2: "\<forall>i h configs. i < length tr \<and> tr ! i = Invoked h configs \<longrightarrow>
          0 < i \<and> (\<exists>k. tr ! (i - 1) = Removed k h)"
    using ordered_nth [OF r(5)] by blast
  have c3: "\<forall>h \<in> set (invoked_handles tr).
          h < nextTimer s \<and> timers s h = None \<and> fire s h = (s, [])
          \<and> (\<forall>k bt. batches s k = Some bt \<longrightarrow> timeout bt \<noteq> h)"
    using dead_facts [OF ok] r(4) by blast
  have c4: "\<forall>h bt res. inflight s h = Some (bt, res) \<longrightarrow>
          timeout bt = h \<and> h < nextTimer s \<and> timers s h = None \<and> fire s h = (s, [])
          \<and> (\<forall>k bt'. batches s k = Some bt' \<longrightarrow> timeout bt' \<noteq> h)"
    using inflight_facts [OF h] by blast
  have c5: "\<forall>k bt. batches s k = Some bt \<longrightarrow>
          int (length (requests bt)) < m
          \<and> (\<exists>ex0. timers s (timeout bt) = Some (k, ex0))
          \<and> timeout bt < nextTimer s
          \<and> timeout bt \<notin> set (invoked_handles tr)"
  proof (intro allI impI)
    fix k bt
    assume bt: "batches s k = Some bt"
    from group_facts [OF h bt] r(2) have
      "int (length (requests bt)) < m" "\<exists>ex0. timers s (timeout bt) = Some (k, ex0)"
      by simp_all
    moreover from this(2) have "timeout bt \<notin> dead s"
      by (auto simp: dead_def)
    moreover from armed_below [OF ok bt] have "timeout bt < nextTimer s"
      by simp
    ultimately show "int (length (requests bt)) < m
          \<and> (\<exists>ex0. timers s (timeout bt) = Some (k, ex0))
          \<and> timeout bt < nextTimer s
          \<and> timeout bt \<notin> set (invoked_handles tr)"
      using r(4) by blast
  qed
  have c6: "snd (snd (add s cfg ex)) = [] \<longleftrightarrow> int (length (old_requests s (getBatchKey cfg))) + 1 < m"
  proof (cases "int (length (old_requests s (getBatchKey cfg))) + 1 < m")
    case True
    with add_open [of s cfg ex] r(2) show ?thesis
      by simp
  next
    case False
    with add_full [OF _ refl, of s cfg ex] r(2) show ?thesis
      by (simp add: flush_effects_def)
  qed
  have c7: "m \<le> int (length (old_requests s (getBatchKey cfg))) + 1 \<longrightarrow>
          take 2 (snd (snd (add s cfg ex)))
            = [Removed (getBatchKey cfg) (group_handle s (getBatchKey cfg)),
               Invoked (group_handle s (getBatchKey cfg))
                 (map config (old_requests s (getBatchKey cfg)) @ [cfg])]
          \<and> batches (fst (snd (add s cfg ex))) = (batches s)(getBatchKey cfg := None)
          \<and> timers (fst (snd (add s cfg ex))) = (timers s)(group_handle s (getBatchKey cfg) := None)
          \<and> fire (fst (snd (add s cfg ex))) (group_handle s (getBatchKey cfg))
              = (fst (snd (add s cfg ex)), [])"
  proof
    assume "m \<le> int (length (old_requests s (getBatchKey cfg))) + 1"
    with add_full [OF _ refl, of s cfg ex] r(2) have
      a: "snd (snd (add s cfg ex))
           = flush_effects (getBatchKey cfg)
               \<lparr>requests = old_requests s (getBatchKey cfg) @ [\<lparr>config = cfg, promise = nextPromise s\<rparr>],
                timeout = group_handle s (getBatchKey cfg)\<rparr>
               (ex (map config (old_requests s (getBatchKey cfg)) @ [cfg]))"
      and b: "batches (fst (snd (add s cfg ex))) = (batches s)(getBatchKey cfg := None)"
      and t: "timers (fst (snd (add s cfg ex))) = (timers s)(group_handle s (getBatchKey cfg) := None)"
      by simp_all
    from t have "timers (fst (snd (add s cfg ex))) (group_handle s (getBatchKey cfg)) = None"
      by simp
    from fire_unarmed [OF this] a b t
    show "take 2 (snd (snd (add s cfg ex)))
            = [Removed (getBatchKey cfg) (group_handle s (getBatchKey cfg)),
               Invoked (group_handle s (getBatchKey cfg))
                 (map config (old_requests s (getBatchKey cfg)) @ [cfg])]
          \<and> batches (fst (snd (add s cfg ex))) = (batches s)(getBatchKey cfg := None)
          \<and> timers (fst (snd (add s cfg ex))) = (timers s)(group_handle s (getBatchKey cfg) := None)
          \<and> fire (fst (snd (add s cfg ex))) (group_handle s (getBatchKey cfg))
              = (fst (snd (add s cfg ex)), [])"
      by (simp add: flush_effects_def)
  qed
  have c8: "\<forall>h k ex0. timers s h = Some (k, ex0) \<longrightarrow>
          (\<exists>bt. batches s k = Some bt \<and> timeout bt = h
             \<and> take 2 (snd (fire s h)) = [Removed k h, Invoked h (map config (requests bt))]
             \<and> batches (fst (fire s h)) = (batches s)(k := None)
             \<and> timers (fst (fire s h)) = (timers s)(h := None)
             \<and> fire (fst (fire s h)) h = (fst (fire s h), []))"
  proof (intro allI impI)
    fix h0 k ex0
    assume "timers s h0 = Some (k, ex0)"
    from fire_reach [OF h this] obtain bt where
      bt: "batches s k = Some bt" "timeout bt = h0"
        "fire s h0 = (flush_state s k bt (ex0 (map config (requests bt))),
                      flush_effects k bt (ex0 (map config (requests bt))))"
      by blast
    then have "timers (fst (fire s h0)) h0 = None"
      by simp
    from fire_unarmed [OF this] bt
    show "\<exists>bt. batches s k = Some bt \<and> timeout bt = h0
             \<and> take 2 (snd (fire s h0)) = [Removed k h0, Invoked h0 (map config (requests bt))]
             \<and> batches (fst (fire s h0)) = (batches s)(k := None)
             \<and> timers (fst (fire s h0)) = (timers s)(h0 := None)
             \<and> fire (fst (fire s h0)) h0 = (fst (fire s h0), [])"
      by (simp add: flush_effects_def)
  qed
  have c9: "batches s (getBatchKey cfg) = None \<and> 1 < m \<longrightarrow>
          batches (fst (snd (add s cfg ex)))
            = (batches s)(getBatchKey cfg \<mapsto>
                 \<lparr>requests = [\<lparr>config = cfg, promise = length (adds_of evs)\<rparr>],
                  timeout = nextTimer s\<rparr>)
          \<and> timers (fst (snd (add s cfg ex)))
              = (timers s)(nextTimer s \<mapsto> (getBatchKey cfg, ex))
          \<and> inflight (fst (snd (add s cfg ex))) = inflight s
          \<and> inflight s (nextTimer s) = None
          \<and> nextTimer s \<notin> set (invoked_handles tr)"
  proof
    assume a: "batches s (getBatchKey cfg) = None \<and> 1 < m"
    have "inflight s (nextTimer s) = None"
    proof (cases "inflight s (nextTimer s)")
      case (Some x)
      obtain bt res where "x = (bt, res)"
        by (cases x)
      with inflight_facts [OF h Some [unfolded this]] show ?thesis
        by simp
    qed simp
    moreover have "nextTimer s \<notin> set (invoked_handles tr)"
      using r(4) by (auto simp: dead_def)
    ultimately show "batches (fst (snd (add s cfg ex)))
            = (batches s)(getBatchKey cfg \<mapsto>
                 \<lparr>requests = [\<lparr>config = cfg, promise = length (adds_of evs)\<rparr>],
                  timeout = nextTimer s\<rparr>)
          \<and> timers (fst (snd (add s cfg ex)))
              = (timers s)(nextTimer s \<mapsto> (getBatchKey cfg, ex))
          \<and> inflight (fst (snd (add s cfg ex))) = inflight s
          \<and> inflight s (nextTimer s) = None
          \<and> nextTimer s \<notin> set (invoked_handles tr)"
      using add_new_open [of s cfg ex] a r(2) np by simp
  qed
  show ?thesis
    by (intro conjI; fact)
qed

theorem group_flushed_at_most_once_witness:
  "invoked_handles (trace_of example_events) = [0, 1, 2]
   \<and> distinct (invoked_handles (trace_of example_events))
   \<and> trace_of example_events ! 1 = Invoked 0 [example_config, example_config4, example_config]
   \<and> (\<exists>k. trace_of example_events ! 0 = Removed k 0)
   \<and> fire (state_after example_events) 0 = (state_after example_events, [])
   \<and> timers (fst (snd (add (state_after (take 3 example_events)) example_config throwing_executor))) 0
       = None
   \<and> batches (fst (snd (add (state_after (take 3 example_events)) example_config throwing_executor)))
       ''GET:/items'' = None
   \<and> fire (fst (snd (add (state_after (take 3 example_events)) example_config throwing_executor))) 0
       = (fst (snd (add (state_after (take 3 example_events)) example_config throwing_executor)), [])
   \<and> inflight (state_after (take 11 example_events)) 2
       = Some (\<lparr>requests = [\<lparr>config = example_config, promise = 4\<rparr>,
                             \<lparr>config = example_config4, promise = 5\<rparr>],
                timeout = 2\<rparr>, Inl ''upstream failed'')
   \<and> batches (state_after (take 11 example_events)) ''GET:/items'' = None
   \<and> batches (fst (snd (add (state_after (take 11 example_events)) example_config example_executor)))
       ''GET:/items''
       = Some \<lparr>requests = [\<lparr>config = example_config, promise = 6\<rparr>], timeout = 3\<rparr>
   \<and> inflight (fst (snd (add (state_after (take 11 example_events)) example_config example_executor))) 2
       = Some (\<lparr>requests = [\<lparr>config = example_config, promise = 4\<rparr>,
                             \<lparr>config = example_config4, promise = 5\<rparr>],
                timeout = 2\<rparr>, Inl ''upstream failed'')"
proof -
  let ?s3 = "state_after (take 3 example_events)"
  let ?s11 = "state_after (take 11 example_events)"
  note A = group_flushed_at_most_once [OF example_reach [of example_events],
      where cfg = example_config and ex = example_executor]
  note B = group_flushed_at_most_once [OF example_reach [of "take 3 example_events"],
      where cfg = example_config and ex = throwing_executor]
  note C = group_flushed_at_most_once [OF example_reach [of "take 11 example_events"],
      where cfg = example_config and ex = example_executor]
  from A [THEN conjunct1]
  have a1: "distinct (invoked_handles (trace_of example_events))" .
  from A [THEN conjunct2, THEN conjunct1, rule_format,
      of 1 0 "[example_config, example_config4, example_config]"] example_final(2,3)
  have a2: "\<exists>k. trace_of example_events ! 0 = Removed k 0"
    by simp
  from A [THEN conjunct2, THEN conjunct2, THEN conjunct1, THEN bspec, of 0] example_final(1)
  have a3: "fire (state_after example_events) 0 = (state_after example_events, [])"
    by simp
  from B [THEN conjunct2, THEN conjunct2, THEN conjunct2, THEN conjunct2, THEN conjunct2,
      THEN conjunct2, THEN conjunct1] example_state3
  have b1: "timers (fst (snd (add ?s3 example_config throwing_executor))) 0 = None
     \<and> batches (fst (snd (add ?s3 example_config throwing_executor))) ''GET:/items'' = None
     \<and> fire (fst (snd (add ?s3 example_config throwing_executor))) 0
         = (fst (snd (add ?s3 example_config throwing_executor)), [])"
    by (simp add: example_keys)
  from C [THEN conjunct2, THEN conjunct2, THEN conjunct2, THEN conjunct2, THEN conjunct2,
      THEN conjunct2, THEN conjunct2, THEN conjunct2] example_state11
  have c1: "batches (fst (snd (add ?s11 example_config example_executor))) ''GET:/items''
       = Some \<lparr>requests = [\<lparr>config = example_config, promise = 6\<rparr>], timeout = 3\<rparr>
     \<and> inflight (fst (snd (add ?s11 example_config example_executor))) 2
       = Some (\<lparr>requests = [\<lparr>config = example_config, promise = 4\<rparr>,
                             \<lparr>config = example_config4, promise = 5\<rparr>],
                timeout = 2\<rparr>, Inl ''upstream failed'')"
    by (simp add: example_keys)
  from example_final(1,3) a1 a2 a3 b1 example_state11(1,2) c1 show ?thesis
    by simp
qed


section \<open>Properties of the health monitor\<close>

lemma rate_iff:
  "(95 :: rat) \<le> (if t > 0 then (of_nat s / of_nat t) * 100 else 100) \<longleftrightarrow> 95 * t \<le> 100 * s"
proof (cases "t > 0")
  case True
  then have "(95 :: rat) \<le> of_nat s / of_nat t * 100 \<longleftrightarrow> (95 :: rat) * of_nat t \<le> 100 * of_nat s"
    by (simp add: field_simps)
  also have "\<dots> \<longleftrightarrow> (of_nat (95 * t) :: rat) \<le> of_nat (100 * s)"
    by simp
  also have "\<dots> \<longleftrightarrow> 95 * t \<le> 100 * s"
    by (simp only: of_nat_le_iff)
  finally show ?thesis
    using True by simp
next
  case False
  then show ?thesis by simp
qed

lemma auth_iff: "(of_nat f :: rat) < of_nat s * (1 / 10) \<longleftrightarrow> 10 * f < s"
proof -
  have "(of_nat f :: rat) < of_nat s * (1 / 10) \<longleftrightarrow> (of_nat (10 * f) :: rat) < of_nat s"
    by (simp add: field_simps)
  also have "\<dots> \<longleftrightarrow> 10 * f < s"
    by (simp only: of_nat_less_iff)
  finally show ?thesis .
qed

lemma checks_eq:
  "highSuccessRate (checks (getHealthStatus m now)) = (95 * req_total m \<le> 100 * req_successful m)"
  "noRecentErrors (checks (getHealthStatus m now))
     = (case lastErrorTime m of None \<Rightarrow> True | Some t \<Rightarrow> t = 0 \<or> 300000 < now - t)"
  "reasonableResponseTime (checks (getHealthStatus m now)) = (avgResponseTime m < 5000)"
  "authWorking (checks (getHealthStatus m now)) = (10 * auth_failed m < auth_successful m)"
proof -
  show "highSuccessRate (checks (getHealthStatus m now)) = (95 * req_total m \<le> 100 * req_successful m)"
    using rate_iff [of "req_total m" "req_successful m"]
    by (simp add: getHealthStatus_def Let_def del: of_nat_mult)
  show "noRecentErrors (checks (getHealthStatus m now))
     = (case lastErrorTime m of None \<Rightarrow> True | Some t \<Rightarrow> t = 0 \<or> 300000 < now - t)"
    by (simp add: getHealthStatus_def Let_def split: option.split)
  show "reasonableResponseTime (checks (getHealthStatus m now)) = (avgResponseTime m < 5000)"
    by (simp add: getHealthStatus_def Let_def)
  show "authWorking (checks (getHealthStatus m now)) = (10 * auth_failed m < auth_successful m)"
    using auth_iff [of "auth_failed m" "auth_successful m"]
    by (simp add: getHealthStatus_def Let_def)
qed

lemma status_eq:
  "status (getHealthStatus m now) =
     (let n = length (filter (\<lambda>x. x)
                [highSuccessRate (checks (getHealthStatus m now)),
                 noRecentErrors (checks (getHealthStatus m now)),
                 reasonableResponseTime (checks (getHealthStatus m now)),
                 authWorking (checks (getHealthStatus m now))])
      in if n = 4 then Healthy else if 3 \<le> n then Degraded else Unhealthy)"
proof -
  have "(of_nat n :: rat) \<ge> of_nat 4 * (7 / 10) \<longleftrightarrow> 3 \<le> n" for n :: nat
  proof -
    have "(of_nat n :: rat) \<ge> of_nat 4 * (7 / 10) \<longleftrightarrow> (of_nat 28 :: rat) \<le> of_nat (10 * n)"
      by (simp add: field_simps)
    also have "\<dots> \<longleftrightarrow> 28 \<le> 10 * n"
      by (simp only: of_nat_le_iff)
    also have "\<dots> \<longleftrightarrow> 3 \<le> n"
      by arith
    finally show ?thesis .
  qed
  then show ?thesis
    by (simp add: getHealthStatus_def Let_def)
qed


lemma scenario_monitor_eq:
  "scenario_monitor =
     \<lparr>startTime = 0, req_total = 100, req_successful = 96, req_failed = 4, avgResponseTime = 200,
      auth_successful = 0, auth_failed = 0, auth_rateLimited = 0, cache_hits = 0, cache_misses = 0,
      err_count = 0, lastError = None, lastErrorTime = None, responseTimes = replicate 100 200\<rparr>"
  by code_simp

text \<open>
  C1, as stated, at the monitor of the scenario with no authentication recorded: 100
  requests, 96 of them successful, no error, an average of 200 ms and 0 authentication
  failures, and the status is degraded, because \<open>authWorking\<close> is false.
\<close>

theorem getHealthStatus_scenario_counterexample:
  "req_total scenario_monitor = 100 \<and> req_successful scenario_monitor = 96
   \<and> lastErrorTime scenario_monitor = None \<and> avgResponseTime scenario_monitor = 200
   \<and> auth_failed scenario_monitor = 0
   \<and> status (getHealthStatus scenario_monitor 1000) = Degraded
   \<and> authWorking (checks (getHealthStatus scenario_monitor 1000)) = False"
  by (simp add: status_eq checks_eq) (simp add: scenario_monitor_eq)

text \<open>
  C1, amended: for every metrics state \<open>getHealthStatus\<close> derives four checks (success rate
  at least 95 percent, no error within the last 5 minutes, where a recorded error time of 0
  counts as none, average latency below 5000 ms, authentication failures below 10 percent
  of authentication successes) and returns healthy
  iff all four hold, degraded iff not all but at least 70 percent of them hold, and unhealthy
  otherwise. For a state with 100 recorded requests of which 96 succeeded, no error in the
  last 5 minutes, an average latency of 200 ms, 0 authentication failures and at least one
  authentication success, the status is healthy and all four checks pass.
\<close>

theorem getHealthStatus_derivation:
  "(highSuccessRate (checks (getHealthStatus m now)) \<longleftrightarrow> 95 * req_total m \<le> 100 * req_successful m)
   \<and> (noRecentErrors (checks (getHealthStatus m now)) \<longleftrightarrow>
        (case lastErrorTime m of None \<Rightarrow> True | Some t \<Rightarrow> t = 0 \<or> 300000 < now - t))
   \<and> (reasonableResponseTime (checks (getHealthStatus m now)) \<longleftrightarrow> avgResponseTime m < 5000)
   \<and> (authWorking (checks (getHealthStatus m now)) \<longleftrightarrow> 10 * auth_failed m < auth_successful m)
   \<and> (status (getHealthStatus m now) = Healthy \<longleftrightarrow>
        highSuccessRate (checks (getHealthStatus m now))
        \<and> noRecentErrors (checks (getHealthStatus m now))
        \<and> reasonableResponseTime (checks (getHealthStatus m now))
        \<and> authWorking (checks (getHealthStatus m now)))
   \<and> (status (getHealthStatus m now) = Degraded \<longleftrightarrow>
        status (getHealthStatus m now) \<noteq> Healthy
        \<and> 7 * 4 \<le> 10 * length (filter (\<lambda>x. x)
              [highSuccessRate (checks (getHealthStatus m now)),
               noRecentErrors (checks (getHealthStatus m now)),
               reasonableResponseTime (checks (getHealthStatus m now)),
               authWorking (checks (getHealthStatus m now))]))
   \<and> (status (getHealthStatus m now) = Unhealthy \<longleftrightarrow>
        10 * length (filter (\<lambda>x. x)
              [highSuccessRate (checks (getHealthStatus m now)),
               noRecentErrors (checks (getHealthStatus m now)),
               reasonableResponseTime (checks (getHealthStatus m now)),
               authWorking (checks (getHealthStatus m now))]) < 7 * 4)
   \<and> (req_total m = 100 \<and> req_successful m = 96
        \<and> (lastErrorTime m = None \<or> (\<exists>t. lastErrorTime m = Some t \<and> 300000 < now - t))
        \<and> avgResponseTime m = 200 \<and> auth_failed m = 0 \<and> 1 \<le> auth_successful m \<longrightarrow>
        status (getHealthStatus m now) = Healthy
        \<and> highSuccessRate (checks (getHealthStatus m now))
        \<and> noRecentErrors (checks (getHealthStatus m now))
        \<and> reasonableResponseTime (checks (getHealthStatus m now))
        \<and> authWorking (checks (getHealthStatus m now)))"
proof -
  let ?c = "checks (getHealthStatus m now)"
  let ?n = "length (filter (\<lambda>x. x)
     [highSuccessRate ?c, noRecentErrors ?c, reasonableResponseTime ?c, authWorking ?c])"
  note st = status_eq [of m now]
  have n4: "?n = 4 \<longleftrightarrow>
      highSuccessRate ?c \<and> noRecentErrors ?c \<and> reasonableResponseTime ?c \<and> authWorking ?c"
    by simp
  have n: "?n \<le> 4"
    by simp
  have healthy: "status (getHealthStatus m now) = Healthy \<longleftrightarrow>
      highSuccessRate ?c \<and> noRecentErrors ?c \<and> reasonableResponseTime ?c \<and> authWorking ?c"
    unfolding n4 [symmetric] by (subst st) (simp add: Let_def)
  have degraded: "status (getHealthStatus m now) = Degraded \<longleftrightarrow>
      status (getHealthStatus m now) \<noteq> Healthy \<and> 7 * 4 \<le> 10 * ?n"
  proof -
    have "status (getHealthStatus m now) = Degraded \<longleftrightarrow> ?n \<noteq> 4 \<and> 3 \<le> ?n"
      by (subst st) (simp add: Let_def)
    also have "\<dots> \<longleftrightarrow> \<not> (highSuccessRate ?c \<and> noRecentErrors ?c \<and> reasonableResponseTime ?c
        \<and> authWorking ?c) \<and> 7 * 4 \<le> 10 * ?n"
      unfolding n4 [symmetric] by arith
    finally show ?thesis
      unfolding healthy .
  qed
  have unhealthy: "status (getHealthStatus m now) = Unhealthy \<longleftrightarrow> 10 * ?n < 7 * 4"
  proof -
    have "status (getHealthStatus m now) = Unhealthy \<longleftrightarrow> ?n \<noteq> 4 \<and> \<not> 3 \<le> ?n"
      by (subst st) (simp add: Let_def)
    also have "\<dots> \<longleftrightarrow> 10 * ?n < 7 * 4"
      by arith
    finally show ?thesis .
  qed
  have scenario: "req_total m = 100 \<and> req_successful m = 96
        \<and> (lastErrorTime m = None \<or> (\<exists>t. lastErrorTime m = Some t \<and> 300000 < now - t))
        \<and> avgResponseTime m = 200 \<and> auth_failed m = 0 \<and> 1 \<le> auth_successful m \<longrightarrow>
        status (getHealthStatus m now) = Healthy
        \<and> highSuccessRate ?c \<and> noRecentErrors ?c \<and> reasonableResponseTime ?c \<and> authWorking ?c"
    unfolding healthy by (auto simp: checks_eq)
  show ?thesis
    using checks_eq [of m now] healthy degraded unhealthy scenario by blast
qed

theorem getHealthStatus_derivation_witness:
  "req_total (recordAuth scenario_monitor Success) = 100
   \<and> req_successful (recordAuth scenario_monitor Success) = 96
   \<and> lastErrorTime (recordAuth scenario_monitor Success) = None
   \<and> avgResponseTime (recordAuth scenario_monitor Success) = 200
   \<and> auth_failed (recordAuth scenario_monitor Success) = 0
   \<and> 1 \<le> auth_successful (recordAuth scenario_monitor Success)
   \<and> status (getHealthStatus (recordAuth scenario_monitor Success) 1000) = Healthy
   \<and> authWorking (checks (getHealthStatus (recordAuth scenario_monitor Success) 1000))"
proof -
  let ?m = "recordAuth scenario_monitor Success"
  have h: "req_total ?m = 100" "req_successful ?m = 96" "lastErrorTime ?m = None"
    "avgResponseTime ?m = 200" "auth_failed ?m = 0" "1 \<le> auth_successful ?m"
    by (simp_all add: recordAuth_def scenario_monitor_eq)
  from getHealthStatus_derivation [of ?m 1000] h show ?thesis
    by blast
qed

lemma record_event_no_success:
  "e \<noteq> Auth Success \<Longrightarrow> auth_successful (record_event m e) = auth_successful m"
proof (cases e)
  case (Request ok rt)
  then show ?thesis by (simp add: recordRequest_def Let_def)
next
  case (Auth a)
  assume "e \<noteq> Auth Success"
  with Auth show ?thesis by (cases a) (simp_all add: recordAuth_def)
next
  case (CacheHit hit)
  then show ?thesis by (simp add: recordCacheHit_def)
next
  case (Error msg t)
  then show ?thesis by (simp add: recordError_def)
qed

lemma record_events_no_success:
  "\<forall>e \<in> set es. e \<noteq> Auth Success \<Longrightarrow> auth_successful (record_events m es) = auth_successful m"
  by (induction es arbitrary: m) (simp_all add: record_event_no_success)

text \<open>
  C10: in every metrics state with zero recorded authentication successes the check
  \<open>authWorking\<close> is false, also with zero failures, and the status is not healthy; a
  monitor in which no authentication success has been recorded, whatever else has been,
  is in such a state.
\<close>

theorem authWorking_needs_success:
  "(auth_successful m = 0 \<longrightarrow>
      \<not> authWorking (checks (getHealthStatus m now)) \<and> status (getHealthStatus m now) \<noteq> Healthy)
   \<and> ((\<forall>e \<in> set es. e \<noteq> Auth Success) \<longrightarrow>
        auth_successful (record_events (new_HealthMonitor t0) es) = 0
        \<and> \<not> authWorking (checks (getHealthStatus (record_events (new_HealthMonitor t0) es) now))
        \<and> status (getHealthStatus (record_events (new_HealthMonitor t0) es) now) \<noteq> Healthy)"
proof -
  have state: "\<not> authWorking (checks (getHealthStatus x now)) \<and> status (getHealthStatus x now) \<noteq> Healthy"
    if "auth_successful x = 0" for x
  proof -
    have a: "\<not> authWorking (checks (getHealthStatus x now))"
      using that by (simp add: checks_eq)
    then have "status (getHealthStatus x now) \<noteq> Healthy"
      by (subst status_eq) (simp add: Let_def)
    with a show ?thesis by simp
  qed
  have none: "auth_successful (record_events (new_HealthMonitor t0) es) = 0"
    if "\<forall>e \<in> set es. e \<noteq> Auth Success"
    using record_events_no_success [OF that, of "new_HealthMonitor t0"]
    by (simp add: new_HealthMonitor_def)
  show ?thesis
    using state none by blast
qed

theorem authWorking_needs_success_witness:
  "auth_successful scenario_monitor = 0 \<and> auth_failed scenario_monitor = 0
   \<and> \<not> authWorking (checks (getHealthStatus scenario_monitor 1000))
   \<and> status (getHealthStatus scenario_monitor 1000) \<noteq> Healthy
   \<and> status (getHealthStatus (new_HealthMonitor 0) 1000) \<noteq> Healthy"
proof -
  have h: "auth_successful scenario_monitor = 0" "auth_failed scenario_monitor = 0"
    by (simp_all add: scenario_monitor_eq)
  have e: "\<forall>e \<in> set ([] :: monitor_event list). e \<noteq> Auth Success"
    by simp
  from authWorking_needs_success [of scenario_monitor 1000 "[]" 0] h e show ?thesis
    by simp
qed

end
